theory Spec2Isabelle
  imports Main "HOL-Library.Multiset"
begin

section \<open>Values, exceptions and tasks (background_processor.py)\<close>

text \<open>
  \<open>TaskType\<close> is the enum of the source. A positional argument of a task is either a
  \<open>str\<close> (the only kind \<open>add_task\<close> and \<open>run\<close> look at, through
  \<open>isinstance(args[0], str)\<close>) or some other object, named by a number.
\<close>

datatype TaskType = FILE_CONVERSION | TEXT_EXTRACTION | FILE_ORGANIZATION

datatype pyval = Str string | Obj nat

text \<open>
  The exceptions that the modelled code can meet, all of them subclasses of \<open>Exception\<close>
  (what \<open>except Exception\<close> catches); \<open>str_of\<close> is Python's \<open>str(e)\<close>.
\<close>

datatype exn =
    TypeError
  | IndexError
  | Empty
  | RuntimeError string
  | AttributeError string
  | OSError string
  | Exception string

fun str_of :: "exn \<Rightarrow> string" where
  "str_of TypeError = ''< not supported between instances of Task and Task''"
| "str_of IndexError = ''index out of range''"
| "str_of Empty = []"
| "str_of (RuntimeError m) = m"
| "str_of (AttributeError m) = m"
| "str_of (OSError m) = m"
| "str_of (Exception m) = m"

text \<open>
  The dataclass \<open>Task\<close>. A callable is named by a number: two callables are equal
  exactly when they are the same object, which is how Python compares functions. The
  keyword arguments are the items of the dict, in the order of their keys, so that equal
  dicts are equal lists. The dataclass is declared without \<open>order=True\<close>, so it has
  \<open>__eq__\<close> (field by field) and no \<open>__lt__\<close>.
\<close>

record Task =
  type :: TaskType
  func :: nat
  args :: "pyval list"
  kwargs :: "(string \<times> pyval) list"
  callback :: "nat option"

section \<open>The priority queue (queue.PriorityQueue over heapq)\<close>

text \<open>
  \<open>add_task\<close> puts the tuple \<open>(priority, task)\<close> into a \<open>PriorityQueue\<close>, whose
  \<open>_put\<close> and \<open>_get\<close> are \<open>heappush\<close> and \<open>heappop\<close> on the list \<open>queue\<close>.
  The heap compares entries with \<open><\<close> on tuples: Python looks for the first position
  where the two tuples differ (by \<open>==\<close>) and compares there. With different priorities
  that is the integers' order. With equal priorities it goes on to the tasks: equal tasks
  make the tuples equal (\<open><\<close> is false), and unequal tasks are compared with \<open><\<close>, which
  \<open>Task\<close> does not define, so the comparison raises \<open>TypeError\<close>.
\<close>

type_synonym item = "int \<times> Task"

definition item_lt :: "item \<Rightarrow> item \<Rightarrow> exn + bool" where
  "item_lt a b =
     (if fst a \<noteq> fst b then Inr (fst a < fst b)
      else if snd a = snd b then Inr False
      else Inl TypeError)"

text \<open>
  \<open>siftdown(heap, startpos, pos)\<close>, as CPython's \<open>heapq\<close> runs it (the C functions that
  \<open>heapq.py\<close> imports over its own): the entry at \<open>pos\<close> moves towards the root while it
  is smaller than its parent. The entries are swapped in place, so when a comparison
  raises, the list keeps every entry, in the places reached so far.
\<close>

function siftdown :: "item list \<Rightarrow> nat \<Rightarrow> nat \<Rightarrow> exn option \<times> item list" where
  "siftdown heap startpos pos =
     (if length heap \<le> pos then (Some IndexError, heap)
      else if startpos < pos then
        (case item_lt (heap ! pos) (heap ! ((pos - 1) div 2)) of
           Inl e \<Rightarrow> (Some e, heap)
         | Inr cmp \<Rightarrow>
             if cmp
             then siftdown (heap[(pos - 1) div 2 := heap ! pos, pos := heap ! ((pos - 1) div 2)])
                    startpos ((pos - 1) div 2)
             else (None, heap))
      else (None, heap))"
  by pat_completeness auto

termination
  by (relation "measure (\<lambda>(heap, startpos, pos). pos)") auto

declare siftdown.simps [simp del]

text \<open>
  The first loop of \<open>siftup(heap, pos)\<close>: the smaller child moves up until \<open>pos\<close> is a
  leaf. Where there are two children they are compared, and that comparison may raise.
  The result carries the position reached.
\<close>

function siftup_loop :: "item list \<Rightarrow> nat \<Rightarrow> exn option \<times> item list \<times> nat" where
  "siftup_loop heap pos =
     (if pos < length heap div 2 then
        (if 2 * pos + 2 < length heap then
           (case item_lt (heap ! (2 * pos + 1)) (heap ! (2 * pos + 2)) of
              Inl e \<Rightarrow> (Some e, heap, pos)
            | Inr cmp \<Rightarrow>
                if cmp
                then siftup_loop (heap[2 * pos + 1 := heap ! pos, pos := heap ! (2 * pos + 1)])
                       (2 * pos + 1)
                else siftup_loop (heap[2 * pos + 2 := heap ! pos, pos := heap ! (2 * pos + 2)])
                       (2 * pos + 2))
         else siftup_loop (heap[2 * pos + 1 := heap ! pos, pos := heap ! (2 * pos + 1)])
                (2 * pos + 1))
      else (None, heap, pos))"
  by pat_completeness auto

termination
  by (relation "measure (\<lambda>(heap, pos). length heap - pos)") auto

declare siftup_loop.simps [simp del]

definition siftup :: "item list \<Rightarrow> nat \<Rightarrow> exn option \<times> item list" where
  "siftup heap pos =
     (if length heap \<le> pos then (Some IndexError, heap)
      else case siftup_loop heap pos of
             (Some e, heap', _) \<Rightarrow> (Some e, heap')
           | (None, heap', leaf) \<Rightarrow> siftdown heap' pos leaf)"

text \<open>\<open>heappush\<close>: append, then sift the new entry towards the root.\<close>

definition heappush :: "item list \<Rightarrow> item \<Rightarrow> exn option \<times> item list" where
  "heappush heap item = siftdown (heap @ [item]) 0 (length heap)"

text \<open>
  \<open>heappop\<close>: the last entry is taken off the list and put at the root in place of the
  entry to return; then \<open>siftup\<close>. When \<open>siftup\<close> raises, the entry that was at the root
  is neither returned nor in the list any more.
\<close>

definition heappop :: "item list \<Rightarrow> (exn + item) \<times> item list" where
  "heappop heap =
     (if heap = [] then (Inl IndexError, heap)
      else if butlast heap = [] then (Inr (last heap), [])
      else case siftup ((butlast heap)[0 := last heap]) 0 of
             (Some e, heap') \<Rightarrow> (Inl e, heap')
           | (None, heap') \<Rightarrow> (Inr (hd heap), heap'))"

text \<open>
  \<open>PriorityQueue.put\<close>, and \<open>get\<close> once its timeout has run out on an empty queue
  (\<open>get_nowait\<close> raises \<open>Empty\<close> at once; the value is the same).
\<close>

definition put :: "item list \<Rightarrow> item \<Rightarrow> exn option \<times> item list" where
  "put q item = heappush q item"

definition get :: "item list \<Rightarrow> (exn + item) \<times> item list" where
  "get q = (if q = [] then (Inl Empty, q) else heappop q)"

section \<open>BackgroundProcessor\<close>

text \<open>
  What the processor lets the outside see: the Qt signals that \<open>run\<close> emits and the
  lines that are logged. A log line is kept as its message's format and the values put
  into it.
\<close>

datatype signal =
    task_completed TaskType pyval
  | task_failed TaskType string

datatype log_line =
    Info_file_already_processed_or_in_queue string
  | Debug_added_task_to_queue int TaskType
  | Info_processing_task TaskType
  | Error_task_execution_failed string
  | Error_task_processing_failed string
  | Warning_unprocessed_task_dropped TaskType

text \<open>
  The fields of \<open>__init__\<close> (\<open>task_queue\<close>, \<open>executor\<close>, \<open>running\<close>,
  \<open>_processed_files\<close>), the signals and log lines produced so far, and the state of the
  thread in \<open>run\<close>: its local variable \<open>task\<close> (unbound until the first \<open>get\<close> returns)
  and the task whose future it is waiting for.
\<close>

record BackgroundProcessor =
  task_queue :: "item list"
  executor_shutdown :: bool
  running :: bool
  processed_files :: "string set"
  emitted :: "signal list"
  logged :: "log_line list"
  local_task :: "Task option"
  in_flight :: "Task option"

definition init :: BackgroundProcessor where
  "init = \<lparr>task_queue = [], executor_shutdown = False, running = True,
            processed_files = {}, emitted = [], logged = [],
            local_task = None, in_flight = None\<rparr>"

text \<open>\<open>args and isinstance(args[0], str)\<close>: the path a task is about, if it has one.\<close>

fun str_arg0 :: "pyval list \<Rightarrow> string option" where
  "str_arg0 (Str a # _) = Some a"
| "str_arg0 _ = None"

definition is_processing_file :: "BackgroundProcessor \<Rightarrow> string \<Rightarrow> bool" where
  "is_processing_file s file_path =
     list_ex (\<lambda>item. str_arg0 (args (snd item)) = Some file_path) (task_queue s)"

text \<open>
  Lines 49 to 51 of \<open>add_task\<close>: build the task, \<open>put\<close> it, log. When \<open>put\<close> raises, the
  exception leaves \<open>add_task\<close> and the debug line is not logged; the list is as \<open>heappush\<close>
  left it.
\<close>

definition enqueue ::
  "int \<Rightarrow> Task \<Rightarrow> BackgroundProcessor \<Rightarrow> exn option \<times> BackgroundProcessor" where
  "enqueue priority task s =
     (case put (task_queue s) (priority, task) of
        (Some e, q) \<Rightarrow> (Some e, s\<lparr>task_queue := q\<rparr>)
      | (None, q) \<Rightarrow>
          (None, s\<lparr>task_queue := q,
                    logged := logged s @ [Debug_added_task_to_queue priority (type task)]\<rparr>))"

text \<open>
  \<open>add_task(priority, task_type, func, *args, callback=None, **kwargs)\<close>. \<open>isfile\<close> is
  \<open>os.path.isfile\<close> at the time of the call. The result is the exception that leaves
  the call, if any, and the processor after it.
\<close>

definition add_task ::
  "(string \<Rightarrow> bool) \<Rightarrow> int \<Rightarrow> TaskType \<Rightarrow> nat \<Rightarrow> pyval list \<Rightarrow> nat option \<Rightarrow>
   (string \<times> pyval) list \<Rightarrow> BackgroundProcessor \<Rightarrow> exn option \<times> BackgroundProcessor" where
  "add_task isfile priority task_type fn as cb kw s =
     (let task = \<lparr>type = task_type, func = fn, args = as, kwargs = kw, callback = cb\<rparr> in
      case str_arg0 as of
        Some file_path \<Rightarrow>
          if isfile file_path then
            (if file_path \<in> processed_files s \<or> is_processing_file s file_path
             then (None, s\<lparr>logged := logged s @
                               [Info_file_already_processed_or_in_queue file_path]\<rparr>)
             else enqueue priority task
                    (s\<lparr>processed_files := insert file_path (processed_files s)\<rparr>))
          else enqueue priority task s
      | None \<Rightarrow> enqueue priority task s)"

text \<open>
  The handler of the outer \<open>except Exception as e\<close> in \<open>run\<close>: it logs, and emits
  \<open>task_failed\<close> for whatever the local variable \<open>task\<close> holds, if it is bound.
\<close>

definition outer_except :: "exn \<Rightarrow> BackgroundProcessor \<Rightarrow> BackgroundProcessor" where
  "outer_except e s =
     (case local_task s of
        None \<Rightarrow> s\<lparr>logged := logged s @ [Error_task_processing_failed (str_of e)]\<rparr>
      | Some task \<Rightarrow>
          s\<lparr>logged := logged s @ [Error_task_processing_failed (str_of e)],
            emitted := emitted s @ [task_failed (type task) (str_of e)]\<rparr>)"

text \<open>
  An iteration of the loop of \<open>run\<close> up to \<open>executor.submit\<close> (lines 64 to 69). When
  \<open>running\<close> is false the loop is over and nothing happens; nor does anything happen
  while the loop waits in \<open>future.result()\<close> for the task it submitted. \<open>get\<close> on an empty queue
  raises \<open>Empty\<close> after its timeout and the loop goes round; any other exception of
  \<open>get\<close>, and the \<open>RuntimeError\<close> of \<open>submit\<close> on an executor that was shut down, go to
  the outer handler.
\<close>

definition run_dispatch :: "BackgroundProcessor \<Rightarrow> BackgroundProcessor" where
  "run_dispatch s =
     (if \<not> running s \<or> in_flight s \<noteq> None then s
      else case get (task_queue s) of
        (Inl Empty, q) \<Rightarrow> s
      | (Inl e, q) \<Rightarrow> outer_except e (s\<lparr>task_queue := q\<rparr>)
      | (Inr (priority, task), q) \<Rightarrow>
          (let s1 = s\<lparr>task_queue := q, local_task := Some task,
                       logged := logged s @ [Info_processing_task (type task)]\<rparr>
           in if executor_shutdown s1
              then outer_except (RuntimeError ''cannot schedule new futures after shutdown'') s1
              else s1\<lparr>in_flight := Some task\<rparr>))"

text \<open>The handler of the inner \<open>except Exception as task_error\<close> (lines 75 to 79).\<close>

definition inner_except :: "exn \<Rightarrow> Task \<Rightarrow> BackgroundProcessor \<Rightarrow> BackgroundProcessor" where
  "inner_except task_error task s =
     s\<lparr>logged := logged s @ [Error_task_execution_failed (str_of task_error)],
       emitted := emitted s @ [task_failed (type task) (str_of task_error)],
       processed_files :=
         (case str_arg0 (args task) of
            Some a \<Rightarrow> processed_files s - {a}
          | None \<Rightarrow> processed_files s)\<rparr>"

text \<open>
  The rest of the iteration (lines 70 to 79), once the future is done. \<open>res\<close> is what
  \<open>future.result()\<close> does: return the body's result or raise its exception. \<open>cb\<close> is
  what the callback does when it is called: \<open>None\<close> when it returns, \<open>Some e\<close> when it
  raises \<open>e\<close>.
\<close>

definition run_result ::
  "exn + pyval \<Rightarrow> exn option \<Rightarrow> BackgroundProcessor \<Rightarrow> BackgroundProcessor" where
  "run_result res cb s =
     (case in_flight s of
        None \<Rightarrow> s
      | Some task \<Rightarrow>
          (case res of
             Inl task_error \<Rightarrow> inner_except task_error task (s\<lparr>in_flight := None\<rparr>)
           | Inr result \<Rightarrow>
               (case (callback task, cb) of
                  (Some _, Some e) \<Rightarrow> inner_except e task (s\<lparr>in_flight := None\<rparr>)
                | _ \<Rightarrow> s\<lparr>in_flight := None,
                          emitted := emitted s @ [task_completed (type task) result]\<rparr>)))"

subsection \<open>The queue keeps its entries\<close>

text \<open>
  The sift loops only swap entries, so \<open>heappush\<close> adds exactly the new entry, whether or
  not it raises, and \<open>heappop\<close> takes exactly the root off the list, whether it returns it
  or raises. In particular every \<open>get\<close> on a queue that is not empty makes it shorter,
  which is why the loop of \<open>stop\<close> below comes to an end.
\<close>

lemma siftdown_mset: "mset (snd (siftdown heap startpos pos)) = mset heap"
proof (induction heap startpos pos rule: siftdown.induct)
  case (1 heap startpos pos)
  show ?case
  proof (cases "\<not> length heap \<le> pos \<and> startpos < pos \<and>
                item_lt (heap ! pos) (heap ! ((pos - 1) div 2)) = Inr True")
    case True
    then have lt: "pos < length heap" "(pos - 1) div 2 < length heap" by auto
    from True "1.IH" [of True]
    have "mset (snd (siftdown heap startpos pos)) =
          mset (heap[(pos - 1) div 2 := heap ! pos, pos := heap ! ((pos - 1) div 2)])"
      by (subst siftdown.simps) simp
    also have "\<dots> = mset heap" using lt by (simp add: mset_swap)
    finally show ?thesis .
  next
    case False
    then show ?thesis
      by (subst siftdown.simps) (auto split: sum.splits)
  qed
qed

lemma siftup_loop_mset: "mset (fst (snd (siftup_loop heap pos))) = mset heap"
proof (induction heap pos rule: siftup_loop.induct)
  case (1 heap pos)
  show ?case
  proof (cases "pos < length heap div 2")
    case False
    then show ?thesis by (subst siftup_loop.simps) simp
  next
    case leaf: True
    then have p: "pos < length heap" "2 * pos + 1 < length heap" by auto
    show ?thesis
    proof (cases "2 * pos + 2 < length heap")
      case False
      with leaf "1.IH"(3) p show ?thesis
        by (subst siftup_loop.simps) (simp add: mset_swap)
    next
      case two: True
      show ?thesis
      proof (cases "item_lt (heap ! (2 * pos + 1)) (heap ! (2 * pos + 2))")
        case (Inl e)
        with leaf two show ?thesis by (subst siftup_loop.simps) simp
      next
        case (Inr cmp)
        with leaf two p "1.IH"(1) [of cmp] "1.IH"(2) [of cmp] show ?thesis
          by (subst siftup_loop.simps) (cases cmp; simp add: mset_swap)
      qed
    qed
  qed
qed

lemma siftup_mset: "mset (snd (siftup heap pos)) = mset heap"
proof (cases "siftup_loop heap pos")
  case (fields r heap' leaf)
  with siftup_loop_mset [of heap pos] have "mset heap' = mset heap" by simp
  with fields siftdown_mset [of heap' pos leaf] show ?thesis
    by (cases r) (simp_all add: siftup_def)
qed

lemma heappush_mset: "mset (snd (heappush heap item)) = add_mset item (mset heap)"
  by (simp add: heappush_def siftdown_mset)

lemma heappop_mset:
  assumes "heap \<noteq> []"
  shows "add_mset (hd heap) (mset (snd (heappop heap))) = mset heap"
proof (cases "butlast heap = []")
  case True
  with assms obtain x where "heap = [x]"
    by (cases heap) (simp_all split: if_splits)
  then show ?thesis by (simp add: heappop_def)
next
  case False
  then have "0 < length (butlast heap)" by (simp del: length_butlast)
  then have "mset ((butlast heap)[0 := last heap]) =
             add_mset (last heap) (mset (butlast heap) - {#butlast heap ! 0#})"
    by (rule mset_update)
  moreover have "butlast heap ! 0 = hd heap"
    using False by (metis hd_conv_nth nth_butlast \<open>0 < length (butlast heap)\<close> assms)
  moreover have "hd heap \<in># mset (butlast heap)"
    using False \<open>butlast heap ! 0 = hd heap\<close> by (metis \<open>0 < length (butlast heap)\<close> nth_mem set_mset_mset)
  moreover have "mset heap = add_mset (last heap) (mset (butlast heap))"
    using assms by (metis append_butlast_last_id mset.simps(1) mset.simps(2) mset_append union_mset_add_mset_right add.right_neutral)
  moreover have "mset (snd (heappop heap)) = mset ((butlast heap)[0 := last heap])"
    using assms False siftup_mset [of "(butlast heap)[0 := last heap]" 0]
    by (auto simp: heappop_def split: prod.splits option.splits)
  ultimately show ?thesis by simp
qed

lemma heappop_Inr: "heappop heap = (Inr x, heap') \<Longrightarrow> heap \<noteq> [] \<and> x = hd heap"
  by (cases heap)
     (auto simp: heappop_def split: if_splits prod.splits option.splits)

lemma get_length: "q \<noteq> [] \<Longrightarrow> Suc (length (snd (get q))) = length q"
  using heappop_mset [of q, THEN arg_cong, of size] by (simp add: get_def)

lemma get_Inr: "get q = (Inr x, q') \<Longrightarrow> q \<noteq> [] \<and> x = hd q"
  by (auto simp: get_def dest: heappop_Inr split: if_splits)

lemma get_mset: "q \<noteq> [] \<Longrightarrow> add_mset (hd q) (mset (snd (get q))) = mset q"
  by (simp add: get_def heappop_mset)

subsection \<open>stop\<close>

text \<open>
  The loop of \<open>stop\<close> (lines 91 to 96): while the queue is not empty, \<open>get_nowait\<close>; a
  task that comes back is logged as dropped, and an exception of \<open>get_nowait\<close> is
  swallowed by the bare \<open>except: pass\<close>.
\<close>

function drain :: "BackgroundProcessor \<Rightarrow> BackgroundProcessor" where
  "drain s =
     (if task_queue s = [] then s
      else case get (task_queue s) of
        (Inr (_, task), q) \<Rightarrow>
          drain (s\<lparr>task_queue := q,
                    logged := logged s @ [Warning_unprocessed_task_dropped (type task)]\<rparr>)
      | (Inl _, q) \<Rightarrow> drain (s\<lparr>task_queue := q\<rparr>))"
  by pat_completeness auto

termination
proof (relation "measure (\<lambda>s. length (task_queue s))")
  show "wf (measure (\<lambda>s. length (task_queue s)))" by simp
next
  fix s :: BackgroundProcessor and x q
  assume "task_queue s \<noteq> []" and "(x, q) = get (task_queue s)"
  with get_length [of "task_queue s"] have "length q < length (task_queue s)"
    by (metis lessI snd_conv)
  then show "(s\<lparr>task_queue := q\<rparr>, s) \<in> measure (\<lambda>s. length (task_queue s))" by simp
next
  fix s :: BackgroundProcessor and x q and task :: Task
  assume "task_queue s \<noteq> []" and "(x, q) = get (task_queue s)"
  with get_length [of "task_queue s"] have "length q < length (task_queue s)"
    by (metis lessI snd_conv)
  then show "(s\<lparr>task_queue := q,
                 logged := logged s @ [Warning_unprocessed_task_dropped (type task)]\<rparr>, s)
             \<in> measure (\<lambda>s. length (task_queue s))" by simp
qed

declare drain.simps [simp del]

text \<open>
  \<open>stop()\<close>, in the order of its lines: the flag, \<open>executor.shutdown(wait=True)\<close>, the
  loop over the queue, \<open>_processed_files.clear()\<close>, and \<open>self.wait()\<close>, which returns
  when \<open>run\<close> has returned. If \<open>run\<close> was waiting for a future, it handles that
  future's outcome (\<open>res\<close>, \<open>cb\<close> as in \<open>run_result\<close>) before it sees the flag and
  returns.
\<close>

definition stop ::
  "exn + pyval \<Rightarrow> exn option \<Rightarrow> BackgroundProcessor \<Rightarrow> BackgroundProcessor" where
  "stop res cb s =
     run_result res cb
       ((drain (s\<lparr>running := False, executor_shutdown := True\<rparr>))\<lparr>processed_files := {}\<rparr>)"

section \<open>ResourceManager (resource_manager.py)\<close>

text \<open>
  What lies outside the manager: the file system, as the modification time of every path
  that exists (the paths the manager tracks come from \<open>tempfile\<close>, side by side in the
  temporary directory, so none lies inside another); the paths whose removal fails, as it
  does for a file that another program holds open; the removals carried out so far; the
  warnings logged; the calls of \<open>time.sleep\<close> and the number of calls of \<open>DispatchEx\<close>.
  Times are in seconds.
\<close>

datatype warning =
    Failed_to_remove_temporary_file string string
  | Attempt_failed_for_COM_class nat string string

record world =
  mtime :: "string \<Rightarrow> int option"
  undeletable :: "string \<Rightarrow> bool"
  removed :: "string list"
  warnings :: "warning list"
  slept :: "int list"
  dispatch_calls :: nat

text \<open>
  The fields of \<open>__init__\<close>. A Python set is kept as the list of its members, without
  repetition. \<open>has_temp_files_lock\<close> says whether the object has an attribute
  \<open>_temp_files_lock\<close>: \<open>__init__\<close> does not assign one, and nothing else in the repository
  does.
\<close>

record ResourceManager =
  temp_directories :: "string list"
  temp_files :: "string list"
  com_objects :: "nat list"
  cleanup_scheduled :: bool
  max_resource_age :: int
  resource_timestamps :: "(nat \<times> int) list"
  max_retries :: nat
  retry_delay :: int
  has_temp_files_lock :: bool

definition ResourceManager_init :: ResourceManager where
  "ResourceManager_init =
     \<lparr>temp_directories = [], temp_files = [], com_objects = [], cleanup_scheduled = False,
      max_resource_age = 3600, resource_timestamps = [], max_retries = 3, retry_delay = 1,
      has_temp_files_lock = False\<rparr>"

definition set_add :: "'a \<Rightarrow> 'a list \<Rightarrow> 'a list" where
  "set_add x xs = (if x \<in> set xs then xs else xs @ [x])"

definition set_discard :: "'a \<Rightarrow> 'a list \<Rightarrow> 'a list" where
  "set_discard x xs = removeAll x xs"

text \<open>
  \<open>os.path.exists\<close>; \<open>os.remove\<close>, which raises \<open>OSError\<close> when the path is not there or
  cannot be removed; and \<open>shutil.rmtree(directory, ignore_errors=True)\<close>, which removes
  what it can and raises nothing.
\<close>

definition path_exists :: "world \<Rightarrow> string \<Rightarrow> bool" where
  "path_exists w path = (mtime w path \<noteq> None)"

definition os_remove :: "string \<Rightarrow> world \<Rightarrow> exn option \<times> world" where
  "os_remove path w =
     (if \<not> path_exists w path then (Some (OSError ''No such file or directory''), w)
      else if undeletable w path then (Some (OSError ''Permission denied''), w)
      else (None, w\<lparr>mtime := (mtime w)(path := None), removed := removed w @ [path]\<rparr>))"

definition rmtree_ignore_errors :: "string \<Rightarrow> world \<Rightarrow> world" where
  "rmtree_ignore_errors path w =
     (if path_exists w path \<and> \<not> undeletable w path
      then w\<lparr>mtime := (mtime w)(path := None), removed := removed w @ [path]\<rparr>
      else w)"

text \<open>
  \<open>cleanup_directory\<close> and \<open>cleanup_file\<close>. The result is the exception that leaves the
  call, if any, with the manager and the world after it. In \<open>cleanup_file\<close> the
  \<open>except Exception\<close> logs what \<open>os.remove\<close> raised, and the \<open>finally\<close> discards the path
  on either way out.
\<close>

definition cleanup_directory ::
  "string \<Rightarrow> ResourceManager \<times> world \<Rightarrow> exn option \<times> ResourceManager \<times> world" where
  "cleanup_directory directory = (\<lambda>(rm, w).
     if directory \<in> set (temp_directories rm)
     then (None, rm\<lparr>temp_directories := set_discard directory (temp_directories rm)\<rparr>,
           rmtree_ignore_errors directory w)
     else (None, rm, w))"

definition cleanup_file ::
  "string \<Rightarrow> ResourceManager \<times> world \<Rightarrow> exn option \<times> ResourceManager \<times> world" where
  "cleanup_file file_path = (\<lambda>(rm, w).
     if file_path \<in> set (temp_files rm) then
       (case (if path_exists w file_path then os_remove file_path w else (None, w)) of
          (None, w') \<Rightarrow>
            (None, rm\<lparr>temp_files := set_discard file_path (temp_files rm)\<rparr>, w')
        | (Some e, w') \<Rightarrow>
            (None, rm\<lparr>temp_files := set_discard file_path (temp_files rm)\<rparr>,
             w'\<lparr>warnings := warnings w' @
                     [Failed_to_remove_temporary_file file_path (str_of e)]\<rparr>))
     else (None, rm, w))"

text \<open>
  The two loops of \<open>cleanup_all\<close>, each over a copy of the set taken before the loop.
  \<open>os.path.exists(p) and current_time - os.path.getmtime(p) > self._max_resource_age\<close>
  reads the modification time only of a path that exists. An exception of a cleanup call
  would end the sweep.
\<close>

definition stale :: "int \<Rightarrow> ResourceManager \<Rightarrow> world \<Rightarrow> string \<Rightarrow> bool" where
  "stale current_time rm w path =
     (case mtime w path of
        None \<Rightarrow> False
      | Some m \<Rightarrow> current_time - m > max_resource_age rm)"

fun sweep_directories ::
  "int \<Rightarrow> string list \<Rightarrow> ResourceManager \<times> world \<Rightarrow> exn option \<times> ResourceManager \<times> world" where
  "sweep_directories current_time [] x = (None, x)"
| "sweep_directories current_time (directory # rest) x =
     (if stale current_time (fst x) (snd x) directory then
        (case cleanup_directory directory x of
           (Some e, x') \<Rightarrow> (Some e, x')
         | (None, x') \<Rightarrow> sweep_directories current_time rest x')
      else sweep_directories current_time rest x)"

fun sweep_files ::
  "int \<Rightarrow> string list \<Rightarrow> ResourceManager \<times> world \<Rightarrow> exn option \<times> ResourceManager \<times> world" where
  "sweep_files current_time [] x = (None, x)"
| "sweep_files current_time (file_path # rest) x =
     (if stale current_time (fst x) (snd x) file_path then
        (case cleanup_file file_path x of
           (Some e, x') \<Rightarrow> (Some e, x')
         | (None, x') \<Rightarrow> sweep_files current_time rest x')
      else sweep_files current_time rest x)"

text \<open>\<open>cleanup_all\<close>, with \<open>current_time\<close> the value of \<open>time.time()\<close> it reads.\<close>

definition cleanup_all ::
  "int \<Rightarrow> ResourceManager \<times> world \<Rightarrow> exn option \<times> ResourceManager \<times> world" where
  "cleanup_all current_time x =
     (case sweep_directories current_time (temp_directories (fst x)) x of
        (Some e, x1) \<Rightarrow> (Some e, x1)
      | (None, x1) \<Rightarrow>
          (case sweep_files current_time (temp_files (fst x1)) x1 of
             (Some e, x2) \<Rightarrow> (Some e, x2)
           | (None, rm, w) \<Rightarrow> (None, rm\<lparr>cleanup_scheduled := False\<rparr>, w)))"

text \<open>
  The context manager \<open>temp_file\<close>. Entering it creates the file (\<open>name\<close> is the path
  \<open>NamedTemporaryFile\<close> chose, \<open>now\<close> the time) and registers it. \<open>with_temp_file\<close> is
  \<open>with rm.temp_file() as name: body\<close>: the body is any code, which returns a value or
  raises, and the \<open>finally\<close> calls \<open>cleanup_file\<close> on both ways out.
\<close>

definition temp_file_enter ::
  "string \<Rightarrow> int \<Rightarrow> ResourceManager \<times> world \<Rightarrow> ResourceManager \<times> world" where
  "temp_file_enter name now = (\<lambda>(rm, w).
     (rm\<lparr>temp_files := set_add name (temp_files rm)\<rparr>,
      w\<lparr>mtime := (mtime w)(name \<mapsto> now)\<rparr>))"

definition with_temp_file ::
  "string \<Rightarrow> int \<Rightarrow>
   (string \<Rightarrow> ResourceManager \<times> world \<Rightarrow> (exn + 'a) \<times> ResourceManager \<times> world) \<Rightarrow>
   ResourceManager \<times> world \<Rightarrow> (exn + 'a) \<times> ResourceManager \<times> world" where
  "with_temp_file name now body x =
     (case body name (temp_file_enter name now x) of
        (r, x') \<Rightarrow>
          (case cleanup_file name x' of
             (Some e, x'') \<Rightarrow> (Inl e, x'')
           | (None, x'') \<Rightarrow> (r, x'')))"

text \<open>
  Entering the context manager \<open>manage_com_object\<close>, up to its \<open>yield\<close>. \<open>connect\<close> says
  what \<open>DispatchEx\<close> does at each attempt: return an object (named by a number) or raise.
  The first thing the generator does is \<open>with self._temp_files_lock\<close>. After that comes
  the loop over \<open>range(self._max_retries)\<close>: a failed attempt is logged; the last one
  re-raises; any other sleeps \<open>self._retry_delay * (2 ** attempt)\<close> and goes on. A
  generator that ends without a \<open>yield\<close> makes \<open>contextmanager\<close> raise \<open>RuntimeError\<close>.
\<close>

fun attempts ::
  "(nat \<Rightarrow> exn + nat) \<Rightarrow> string \<Rightarrow> int \<Rightarrow> nat list \<Rightarrow> ResourceManager \<times> world \<Rightarrow>
   (exn + nat) \<times> ResourceManager \<times> world" where
  "attempts connect com_class now [] x = (Inl (RuntimeError ''generator didn't yield''), x)"
| "attempts connect com_class now (attempt # rest) x =
     (case connect attempt of
        Inr obj \<Rightarrow>
          (Inr obj,
           (fst x)\<lparr>com_objects := set_add obj (com_objects (fst x)),
                    resource_timestamps :=
                      (obj, now) # filter (\<lambda>kv. fst kv \<noteq> obj) (resource_timestamps (fst x))\<rparr>,
           (snd x)\<lparr>dispatch_calls := dispatch_calls (snd x) + 1\<rparr>)
      | Inl e \<Rightarrow>
          (if attempt + 1 = max_retries (fst x) then
             (Inl e, fst x,
              (snd x)\<lparr>dispatch_calls := dispatch_calls (snd x) + 1,
                       warnings := warnings (snd x) @
                         [Attempt_failed_for_COM_class (attempt + 1) com_class (str_of e)]\<rparr>)
           else attempts connect com_class now rest
                  (fst x,
                   (snd x)\<lparr>dispatch_calls := dispatch_calls (snd x) + 1,
                            warnings := warnings (snd x) @
                              [Attempt_failed_for_COM_class (attempt + 1) com_class (str_of e)],
                            slept := slept (snd x) @ [retry_delay (fst x) * 2 ^ attempt]\<rparr>)))"

definition manage_com_object ::
  "(nat \<Rightarrow> exn + nat) \<Rightarrow> string \<Rightarrow> int \<Rightarrow> ResourceManager \<times> world \<Rightarrow>
   (exn + nat) \<times> ResourceManager \<times> world" where
  "manage_com_object connect com_class now x =
     (if \<not> has_temp_files_lock (fst x)
      then (Inl (AttributeError
                  ''ResourceManager object has no attribute _temp_files_lock''), x)
      else attempts connect com_class now [0..<max_retries (fst x)] x)"

section \<open>Runs of the processor\<close>

text \<open>
  What can happen to a processor, one call at a time: a call of \<open>add_task\<close> (with the
  file system it sees), the loop of \<open>run\<close> taking the next task, the loop handling the
  outcome of the task it waits for, and \<open>stop\<close>.
\<close>

datatype event =
    Add "string \<Rightarrow> bool" int TaskType nat "pyval list" "nat option" "(string \<times> pyval) list"
  | Dispatch
  | Finish "exn + pyval" "exn option"
  | Stop "exn + pyval" "exn option"

fun step :: "BackgroundProcessor \<Rightarrow> event \<Rightarrow> BackgroundProcessor" where
  "step s (Add isfile priority task_type fn as cb kw) =
     snd (add_task isfile priority task_type fn as cb kw s)"
| "step s Dispatch = run_dispatch s"
| "step s (Finish res cb) = run_result res cb s"
| "step s (Stop res cb) = stop res cb s"

definition after :: "event list \<Rightarrow> BackgroundProcessor" where
  "after evs = foldl step init evs"

text \<open>
  The tasks about path \<open>p\<close> that are unresolved: those in the queue, and the one the loop
  is waiting for.
\<close>

definition about :: "string \<Rightarrow> Task \<Rightarrow> bool" where
  "about p task = (str_arg0 (args task) = Some p)"

definition unresolved :: "string \<Rightarrow> BackgroundProcessor \<Rightarrow> nat" where
  "unresolved p s =
     length (filter (\<lambda>item. about p (snd item)) (task_queue s)) +
     (case in_flight s of None \<Rightarrow> 0 | Some task \<Rightarrow> if about p task then 1 else 0)"

text \<open>An event that enqueues for \<open>p\<close> sees \<open>p\<close> as an existing file.\<close>

fun sees_file :: "string \<Rightarrow> event \<Rightarrow> bool" where
  "sees_file p (Add isfile _ _ _ as _ _) = (str_arg0 as = Some p \<longrightarrow> isfile p)"
| "sees_file p _ = True"

text \<open>
  Turns of the loop, one for each outcome in the list: the loop takes the next task, and
  the task it waits for ends with that outcome. \<open>serve\<close> lists the states in which the
  loop has just taken a task.
\<close>

fun serve ::
  "((exn + pyval) \<times> exn option) list \<Rightarrow> BackgroundProcessor \<Rightarrow> BackgroundProcessor list" where
  "serve [] s = []"
| "serve ((res, cb) # outcomes) s =
     run_dispatch s # serve outcomes (run_result res cb (run_dispatch s))"

subsection \<open>What the tracking keeps true\<close>

text \<open>
  \<open>is_stop\<close> tells a \<open>stop\<close> from the other events. \<open>queued p q\<close> counts the entries of
  a queue that are about \<open>p\<close>. \<open>dedup_inv\<close> is what the tracking keeps true of a path
  while the processor runs, and \<open>kept\<close> what holds of a path after its task completed.
\<close>

fun is_stop :: "event \<Rightarrow> bool" where
  "is_stop (Stop _ _) = True"
| "is_stop _ = False"

definition queued :: "string \<Rightarrow> item list \<Rightarrow> nat" where
  "queued p q = length (filter (\<lambda>item. about p (snd item)) q)"

definition dedup_inv :: "string \<Rightarrow> BackgroundProcessor \<Rightarrow> bool" where
  "dedup_inv p s \<longleftrightarrow> unresolved p s \<le> 1 \<and> (unresolved p s = 1 \<longrightarrow> p \<in> processed_files s)"

definition kept :: "string \<Rightarrow> BackgroundProcessor \<Rightarrow> bool" where
  "kept p s \<longleftrightarrow> p \<in> processed_files s \<and> unresolved p s = 0"

subsection \<open>Heap order\<close>

text \<open>
  The list of a \<open>PriorityQueue\<close> is a binary heap: the parent of index \<open>i\<close> is index
  \<open>(i - 1) div 2\<close>. \<open>heap_edge heap i\<close>: the entry at \<open>i\<close> has at least the priority of its
  parent. \<open>is_heap\<close>: this holds of every entry but the root.
\<close>

definition heap_edge :: "item list \<Rightarrow> nat \<Rightarrow> bool" where
  "heap_edge heap i \<longleftrightarrow> fst (heap ! ((i - 1) div 2)) \<le> fst (heap ! i)"

definition is_heap :: "item list \<Rightarrow> bool" where
  "is_heap heap \<longleftrightarrow> (\<forall>i. 0 < i \<and> i < length heap \<longrightarrow> heap_edge heap i)"

text \<open>
  \<open>heap_but heap pos\<close>: every entry but the one at \<open>pos\<close> is at least its parent, and the
  children of \<open>pos\<close> are at least the parent of \<open>pos\<close>.
\<close>

definition heap_but :: "item list \<Rightarrow> nat \<Rightarrow> bool" where
  "heap_but heap pos \<longleftrightarrow>
     (\<forall>i. 0 < i \<and> i < length heap \<and> i \<noteq> pos \<longrightarrow> heap_edge heap i) \<and>
     (\<forall>i. 0 < pos \<and> i < length heap \<and> 0 < i \<and> (i - 1) div 2 = pos \<longrightarrow>
        fst (heap ! ((pos - 1) div 2)) \<le> fst (heap ! i))"

text \<open>
  \<open>heap_hole heap pos\<close>: every entry that is neither at \<open>pos\<close> nor a child of \<open>pos\<close> is at
  least its parent, and the children of \<open>pos\<close> are at least the parent of \<open>pos\<close>.
\<close>

definition heap_hole :: "item list \<Rightarrow> nat \<Rightarrow> bool" where
  "heap_hole heap pos \<longleftrightarrow>
     (\<forall>i. 0 < i \<and> i < length heap \<and> i \<noteq> pos \<and> (i - 1) div 2 \<noteq> pos \<longrightarrow> heap_edge heap i) \<and>
     (\<forall>i. 0 < pos \<and> i < length heap \<and> 0 < i \<and> (i - 1) div 2 = pos \<longrightarrow>
        fst (heap ! ((pos - 1) div 2)) \<le> fst (heap ! i))"

text \<open>
  \<open>offered\<close> is the priority that an event offers to the queue, \<open>priorities\<close> the
  priorities offered over a run, and \<open>orderly ps s\<close> says that the queue of \<open>s\<close> is a
  heap of pairwise different priorities, all of them among \<open>ps\<close>.
\<close>

fun offered :: "event \<Rightarrow> int list" where
  "offered (Add _ priority _ _ _ _ _) = [priority]"
| "offered _ = []"

definition priorities :: "event list \<Rightarrow> int list" where
  "priorities evs = concat (map offered evs)"

definition orderly :: "int list \<Rightarrow> BackgroundProcessor \<Rightarrow> bool" where
  "orderly ps s \<longleftrightarrow>
     is_heap (task_queue s) \<and> distinct (map fst (task_queue s)) \<and>
     fst ` set (task_queue s) \<subseteq> set ps"

subsection \<open>What a sweep does to the world\<close>

text \<open>
  \<open>shrinks w w'\<close>: from \<open>w\<close> to \<open>w'\<close> paths were only removed, each one once, and each
  removal is in the record of removals.
\<close>

definition shrinks :: "world \<Rightarrow> world \<Rightarrow> bool" where
  "shrinks w w' \<longleftrightarrow>
     (\<exists>r. removed w' = removed w @ r \<and> distinct r \<and>
          (\<forall>p \<in> set r. mtime w p \<noteq> None \<and> mtime w' p = None)) \<and>
     (\<forall>p. mtime w' p = None \<or> mtime w' p = mtime w p) \<and>
     undeletable w' = undeletable w"

text \<open>
  \<open>settles x x'\<close>: from \<open>x\<close> to \<open>x'\<close> the world shrinks, no path becomes tracked, and the
  maximum age, the flag and the automation handles are the same.
\<close>

definition settles :: "ResourceManager \<times> world \<Rightarrow> ResourceManager \<times> world \<Rightarrow> bool" where
  "settles x x' \<longleftrightarrow>
     shrinks (snd x) (snd x') \<and>
     set (temp_files (fst x')) \<subseteq> set (temp_files (fst x)) \<and>
     set (temp_directories (fst x')) \<subseteq> set (temp_directories (fst x)) \<and>
     max_resource_age (fst x') = max_resource_age (fst x) \<and>
     cleanup_scheduled (fst x') = cleanup_scheduled (fst x) \<and>
     com_objects (fst x') = com_objects (fst x)"

section \<open>Example runs\<close>

text \<open>A run of one \<open>add_task\<close> for an existing file and one turn of the loop.\<close>

definition one_dispatched :: "event list" where
  "one_dispatched = [Add (\<lambda>_. True) 1 FILE_CONVERSION 0 [Str ''f.pdf''] None [], Dispatch]"

text \<open>
  A run in which the task for \<open>f.pdf\<close> completes, the same path is offered again, and
  the loop takes another turn.
\<close>

definition done_once :: "event list" where
  "done_once = one_dispatched @ [Finish (Inr (Obj 0)) None,
     Add (\<lambda>_. True) 1 FILE_CONVERSION 0 [Str ''f.pdf''] None [], Dispatch]"

text \<open>
  Tasks without a path, so that \<open>add_task\<close> goes straight to \<open>put\<close>: \<open>job t n\<close> is the
  task that \<open>offer priority t n\<close> builds.
\<close>

definition job :: "TaskType \<Rightarrow> nat \<Rightarrow> Task" where
  "job task_type n = \<lparr>type = task_type, func = n, args = [Obj n], kwargs = [], callback = None\<rparr>"

definition offer :: "int \<Rightarrow> TaskType \<Rightarrow> nat \<Rightarrow> event" where
  "offer priority task_type n = Add (\<lambda>_. True) priority task_type n [Obj n] None []"

definition three :: "event list" where
  "three = [offer 1 FILE_CONVERSION 0, offer 2 TEXT_EXTRACTION 1, offer 2 FILE_ORGANIZATION 2]"

definition seven :: "event list" where
  "seven = [offer 1 FILE_CONVERSION 0, offer 2 FILE_CONVERSION 1, offer 4 FILE_CONVERSION 2,
            offer 3 FILE_CONVERSION 3, offer 3 FILE_CONVERSION 4, offer 5 FILE_CONVERSION 5,
            offer 6 FILE_CONVERSION 6]"

text \<open>
  Two runs in which the task for \<open>f.pdf\<close> fails. In \<open>retry_tie\<close> another task of
  priority 1 was offered while it was in flight. In \<open>retry_lost\<close> the path is offered
  again after the failure, and then two tasks of priority 2.
\<close>

definition retry_tie :: "event list" where
  "retry_tie = one_dispatched @
     [offer 1 TEXT_EXTRACTION 1, Finish (Inl (Exception ''boom'')) None]"

definition retry_lost :: "event list" where
  "retry_lost = one_dispatched @ [Finish (Inl (Exception ''boom'')) None,
     Add (\<lambda>_. True) 1 FILE_CONVERSION 0 [Str ''f.pdf''] None [],
     offer 2 TEXT_EXTRACTION 1, offer 2 FILE_ORGANIZATION 2]"

text \<open>A world with no files, where nothing has happened yet.\<close>

definition empty_world :: world where
  "empty_world = \<lparr>mtime = (\<lambda>_. None), undeletable = (\<lambda>_. False), removed = [],
                   warnings = [], slept = [], dispatch_calls = 0\<rparr>"

text \<open>Bodies: one that returns, one that raises, one that holds the file open and returns.\<close>

definition body_returns ::
  "string \<Rightarrow> ResourceManager \<times> world \<Rightarrow> (exn + nat) \<times> ResourceManager \<times> world" where
  "body_returns name x = (Inr 0, x)"

definition body_raises ::
  "string \<Rightarrow> ResourceManager \<times> world \<Rightarrow> (exn + nat) \<times> ResourceManager \<times> world" where
  "body_raises name x = (Inl (Exception ''conversion failed''), x)"

definition body_keeps_open ::
  "string \<Rightarrow> ResourceManager \<times> world \<Rightarrow> (exn + nat) \<times> ResourceManager \<times> world" where
  "body_keeps_open name = (\<lambda>(rm, w). (Inr 0, rm, w\<lparr>undeletable := (undeletable w)(name := True)\<rparr>))"

text \<open>
  The definitions to unfold when a run is evaluated.
\<close>

lemmas eval_defs = after_def init_def add_task_def enqueue_def put_def heappush_def
        siftdown.simps siftup_loop.simps siftup_def is_processing_file_def run_dispatch_def
        get_def heappop_def run_result_def inner_except_def outer_except_def
        unresolved_def about_def item_lt_def

lemmas ex_defs = job_def offer_def three_def seven_def

section \<open>The dedup tracking\<close>

lemma queued_mset: "queued p q = size (filter_mset (\<lambda>item. about p (snd item)) (mset q))"
  by (simp add: queued_def flip: mset_filter)

lemma queued_put:
  "queued p (snd (put q x)) = queued p q + (if about p (snd x) then 1 else 0)"
  by (simp add: queued_mset put_def heappush_mset)

lemma queued_get:
  assumes "q \<noteq> []"
  shows "queued p q = queued p (snd (get q)) + (if about p (snd (hd q)) then 1 else 0)"
proof -
  have "queued p q = size (filter_mset (\<lambda>item. about p (snd item))
                             (add_mset (hd q) (mset (snd (get q)))))"
    using get_mset [OF assms] by (simp add: queued_mset)
  then show ?thesis by (simp add: queued_mset)
qed

lemma is_processing_file_queued:
  "is_processing_file s p \<longleftrightarrow> 0 < queued p (task_queue s)"
  by (auto simp: is_processing_file_def queued_def about_def list_ex_iff filter_empty_conv)

lemma unresolved_queued:
  "unresolved p s = queued p (task_queue s) +
     (case in_flight s of None \<Rightarrow> 0 | Some task \<Rightarrow> if about p task then 1 else 0)"
  by (simp add: unresolved_def queued_def)

lemma unresolved_frame [simp]:
  "unresolved p (s\<lparr>processed_files := pf\<rparr>) = unresolved p s"
  "unresolved p (s\<lparr>logged := lg\<rparr>) = unresolved p s"
  "unresolved p (s\<lparr>emitted := em\<rparr>) = unresolved p s"
  "unresolved p (s\<lparr>running := r\<rparr>) = unresolved p s"
  "unresolved p (s\<lparr>executor_shutdown := sh\<rparr>) = unresolved p s"
  "unresolved p (s\<lparr>local_task := lt\<rparr>) = unresolved p s"
  by (simp_all add: unresolved_def)

lemma enqueue_fields:
  "task_queue (snd (enqueue priority task s)) = snd (put (task_queue s) (priority, task))"
  "processed_files (snd (enqueue priority task s)) = processed_files s"
  "in_flight (snd (enqueue priority task s)) = in_flight s"
  "running (snd (enqueue priority task s)) = running s"
  by (auto simp: enqueue_def split: prod.splits option.splits)

lemma unresolved_enqueue:
  "unresolved p (snd (enqueue priority task s)) =
     unresolved p s + (if about p task then 1 else 0)"
  by (simp add: unresolved_queued enqueue_fields queued_put)

lemma add_task_duplicate:
  assumes "str_arg0 as = Some p" and "isfile p"
    and "p \<in> processed_files s \<or> is_processing_file s p"
  shows "add_task isfile priority task_type fn as cb kw s =
           (None, s\<lparr>logged := logged s @ [Info_file_already_processed_or_in_queue p]\<rparr>)"
  using assms by (simp add: add_task_def)

lemma add_task_tracked:
  assumes "str_arg0 as = Some p" and "isfile p"
    and "p \<notin> processed_files s" and "\<not> is_processing_file s p"
  shows "add_task isfile priority task_type fn as cb kw s =
           enqueue priority \<lparr>type = task_type, func = fn, args = as, kwargs = kw, callback = cb\<rparr>
             (s\<lparr>processed_files := insert p (processed_files s)\<rparr>)"
  using assms by (simp add: add_task_def)

lemma add_task_untracked:
  assumes "str_arg0 as = None \<or> (\<exists>a. str_arg0 as = Some a \<and> \<not> isfile a)"
  shows "add_task isfile priority task_type fn as cb kw s =
           enqueue priority \<lparr>type = task_type, func = fn, args = as, kwargs = kw, callback = cb\<rparr> s"
  using assms by (auto simp: add_task_def)

lemma add_task_other:
  assumes "str_arg0 as \<noteq> Some p"
  shows "unresolved p (snd (add_task isfile priority task_type fn as cb kw s)) = unresolved p s"
    and "processed_files s \<subseteq> processed_files (snd (add_task isfile priority task_type fn as cb kw s))"
proof -
  let ?task = "\<lparr>type = task_type, func = fn, args = as, kwargs = kw, callback = cb\<rparr>"
  let ?r = "add_task isfile priority task_type fn as cb kw s"
  from assms have na: "\<not> about p ?task" by (simp add: about_def)
  consider (u) "str_arg0 as = None \<or> (\<exists>a. str_arg0 as = Some a \<and> \<not> isfile a)"
    | (d) a where "str_arg0 as = Some a" "isfile a" "a \<in> processed_files s \<or> is_processing_file s a"
    | (t) a where "str_arg0 as = Some a" "isfile a" "a \<notin> processed_files s" "\<not> is_processing_file s a"
    by (cases "str_arg0 as") auto
  then have "unresolved p (snd ?r) = unresolved p s \<and> processed_files s \<subseteq> processed_files (snd ?r)"
  proof cases
    case u
    then show ?thesis using na
      by (simp add: add_task_untracked unresolved_enqueue enqueue_fields)
  next
    case d
    then show ?thesis by (simp add: add_task_duplicate)
  next
    case t
    then show ?thesis using na
      by (auto simp: add_task_tracked unresolved_enqueue enqueue_fields)
  qed
  then show "unresolved p (snd ?r) = unresolved p s"
    and "processed_files s \<subseteq> processed_files (snd ?r)" by simp_all
qed

lemma inv_add_task:
  assumes "dedup_inv p s" and "str_arg0 as = Some p \<longrightarrow> isfile p"
  shows "dedup_inv p (snd (add_task isfile priority task_type fn as cb kw s))"
proof (cases "str_arg0 as = Some p")
  case True
  with assms have f: "isfile p" by simp
  show ?thesis
  proof (cases "p \<in> processed_files s \<or> is_processing_file s p")
    case dup: True
    with True f assms(1) show ?thesis
      by (simp add: add_task_duplicate dedup_inv_def)
  next
    case False
    then have "queued p (task_queue s) = 0" and "p \<notin> processed_files s"
      by (simp_all add: is_processing_file_queued)
    with assms(1) have "unresolved p s = 0"
      by (auto simp: dedup_inv_def unresolved_queued)
    with True f False show ?thesis
      by (simp add: add_task_tracked dedup_inv_def unresolved_enqueue enqueue_fields about_def)
  qed
next
  case False
  from add_task_other [OF False, where s = s and isfile = isfile and priority = priority
      and task_type = task_type and fn = fn and cb = cb and kw = kw] assms(1)
  show ?thesis by (auto simp: dedup_inv_def)
qed

lemma outer_except_fields [simp]:
  "task_queue (outer_except e s) = task_queue s"
  "processed_files (outer_except e s) = processed_files s"
  "in_flight (outer_except e s) = in_flight s"
  "running (outer_except e s) = running s"
  by (simp_all add: outer_except_def split: option.splits)

lemma unresolved_outer_except [simp]: "unresolved p (outer_except e s) = unresolved p s"
  by (simp add: unresolved_def)

lemma processed_files_run_dispatch [simp]:
  "processed_files (run_dispatch s) = processed_files s"
  by (simp add: run_dispatch_def Let_def split: prod.splits sum.splits exn.splits)

lemma unresolved_run_dispatch: "unresolved p (run_dispatch s) \<le> unresolved p s"
proof (cases "\<not> running s \<or> in_flight s \<noteq> None \<or> task_queue s = []")
  case True
  then show ?thesis
    by (auto simp: run_dispatch_def get_def)
next
  case False
  then have ne: "task_queue s \<noteq> []" and idle: "in_flight s = None" and r: "running s"
    by auto
  obtain x q where g: "get (task_queue s) = (x, q)" by (cases "get (task_queue s)")
  from queued_get [OF ne, of p] g
  have q: "unresolved p s = queued p q + (if about p (snd (hd (task_queue s))) then 1 else 0)"
    by (simp add: unresolved_queued idle)
  show ?thesis
  proof (cases x)
    case (Inl e)
    with g r idle q show ?thesis
      by (cases e) (simp_all add: run_dispatch_def unresolved_queued)
  next
    case (Inr it)
    with g get_Inr [of "task_queue s" it q] have hd: "it = hd (task_queue s)" by simp
    obtain priority task where it: "it = (priority, task)" by (cases it)
    with hd have "snd (hd (task_queue s)) = task" by (metis snd_conv)
    with Inr it g r idle q show ?thesis
      by (simp add: run_dispatch_def unresolved_queued Let_def)
  qed
qed

lemma inv_run_dispatch: "dedup_inv p s \<Longrightarrow> dedup_inv p (run_dispatch s)"
proof -
  assume i: "dedup_inv p s"
  have "unresolved p (run_dispatch s) = 0 \<or> unresolved p (run_dispatch s) = unresolved p s"
    using unresolved_run_dispatch [of p s] i by (auto simp: dedup_inv_def)
  with i show ?thesis by (auto simp: dedup_inv_def)
qed

lemma inner_except_fields [simp]:
  "task_queue (inner_except e task s) = task_queue s"
  "in_flight (inner_except e task s) = in_flight s"
  "running (inner_except e task s) = running s"
  "processed_files (inner_except e task s) =
     (case str_arg0 (args task) of Some a \<Rightarrow> processed_files s - {a} | None \<Rightarrow> processed_files s)"
  by (simp_all add: inner_except_def)

lemma run_result_fields:
  "task_queue (run_result res cb s) = task_queue s"
  "in_flight (run_result res cb s) = None"
  "running (run_result res cb s) = running s"
  by (simp_all add: run_result_def split: option.splits sum.splits prod.splits)

lemma processed_files_run_result:
  "processed_files (run_result res cb s) = processed_files s \<or>
   (\<exists>task a. in_flight s = Some task \<and> str_arg0 (args task) = Some a \<and>
      processed_files (run_result res cb s) = processed_files s - {a})"
  by (auto simp: run_result_def split: option.splits sum.splits prod.splits)

lemma inv_run_result: 
  assumes "dedup_inv p s"
  shows "dedup_inv p (run_result res cb s)"
proof -
  let ?s' = "run_result res cb s"
  have u: "unresolved p ?s' = queued p (task_queue s)"
    by (simp add: unresolved_queued run_result_fields)
  show ?thesis
  proof (cases "\<exists>task. in_flight s = Some task \<and> about p task")
    case True
    with assms have "queued p (task_queue s) = 0"
      by (auto simp: dedup_inv_def unresolved_queued)
    with u show ?thesis by (simp add: dedup_inv_def)
  next
    case False
    then have "unresolved p s = queued p (task_queue s)"
      by (auto simp: unresolved_queued split: option.splits)
    moreover from False have "p \<in> processed_files s \<Longrightarrow> p \<in> processed_files ?s'"
      using processed_files_run_result [of res cb s] by (auto simp: about_def)
    ultimately show ?thesis using assms u by (auto simp: dedup_inv_def)
  qed
qed

lemma drain_frame: "\<exists>lg. drain s = s\<lparr>task_queue := [], logged := lg\<rparr>"
proof (induction s rule: drain.induct)
  case (1 s)
  show ?case
  proof (cases "task_queue s = []")
    case True
    then have "drain s = s\<lparr>task_queue := [], logged := logged s\<rparr>"
      by (subst drain.simps) simp
    then show ?thesis by blast
  next
    case False
    obtain x q where g: "get (task_queue s) = (x, q)" by (cases "get (task_queue s)")
    show ?thesis
    proof (cases x)
      case (Inl e)
      from "1.IH"(1) [OF False g [symmetric] Inl]
      obtain lg where "drain (s\<lparr>task_queue := q\<rparr>) = s\<lparr>task_queue := [], logged := lg\<rparr>"
        by auto
      with False g Inl have "drain s = s\<lparr>task_queue := [], logged := lg\<rparr>"
        by (subst drain.simps) simp
      then show ?thesis by blast
    next
      case (Inr it)
      obtain priority task where it: "it = (priority, task)" by (cases it)
      let ?s1 = "s\<lparr>task_queue := q,
                    logged := logged s @ [Warning_unprocessed_task_dropped (type task)]\<rparr>"
      from "1.IH"(2) [OF False g [symmetric] Inr it [symmetric]]
      obtain lg where "drain ?s1 = s\<lparr>task_queue := [], logged := lg\<rparr>"
        by auto
      with False g Inr it have "drain s = s\<lparr>task_queue := [], logged := lg\<rparr>"
        by (subst drain.simps) simp
      then show ?thesis by blast
    qed
  qed
qed

lemma stop_fields:
  "task_queue (stop res cb s) = []"
  "in_flight (stop res cb s) = None"
  "processed_files (stop res cb s) = {}"
  "running (stop res cb s) = False"
proof -
  obtain lg where d: "drain (s\<lparr>running := False, executor_shutdown := True\<rparr>) =
      s\<lparr>running := False, executor_shutdown := True, task_queue := [], logged := lg\<rparr>"
    using drain_frame [of "s\<lparr>running := False, executor_shutdown := True\<rparr>"] by auto
  show "task_queue (stop res cb s) = []" "in_flight (stop res cb s) = None"
    "running (stop res cb s) = False"
    by (simp_all add: stop_def d run_result_fields)
  show "processed_files (stop res cb s) = {}"
    using processed_files_run_result [of res cb
      "s\<lparr>running := False, executor_shutdown := True, task_queue := [], logged := lg,
         processed_files := {}\<rparr>"]
    by (auto simp: stop_def d)
qed

lemma inv_stop: "dedup_inv p (stop res cb s)"
  by (simp add: dedup_inv_def unresolved_def stop_fields)

lemma inv_step: "dedup_inv p s \<Longrightarrow> sees_file p e \<Longrightarrow> dedup_inv p (step s e)"
  by (cases e) (simp_all add: inv_add_task inv_run_dispatch inv_run_result inv_stop)

lemma inv_foldl: "dedup_inv p s \<Longrightarrow> list_all (sees_file p) evs \<Longrightarrow> dedup_inv p (foldl step s evs)"
  by (induction evs arbitrary: s) (simp_all add: inv_step)

lemma inv_init: "dedup_inv p init"
  by (simp add: dedup_inv_def unresolved_def init_def)

lemma inv_after: "list_all (sees_file p) evs \<Longrightarrow> dedup_inv p (after evs)"
  by (simp add: after_def inv_foldl inv_init)

text \<open>
  Claim C1 (dedup invariant). Take any run of the processor in which every \<open>add_task\<close>
  for the path \<open>p\<close> finds \<open>p\<close> an existing file. Then at most one task about \<open>p\<close> is in
  the queue or in flight; and while one is, a further \<open>add_task\<close> for \<open>p\<close> raises nothing,
  adds no task and changes nothing but the log, where it writes the line
  \<open>File already processed or in queue\<close>. So no second task body for \<open>p\<close> can be submitted
  while the first is unresolved.
\<close>

theorem dedup_invariant:
  assumes "list_all (sees_file p) evs"
  shows "unresolved p (after evs) \<le> 1 \<and>
         (0 < unresolved p (after evs) \<longrightarrow> isfile p \<longrightarrow> str_arg0 as = Some p \<longrightarrow>
            add_task isfile priority task_type fn as cb kw (after evs) =
              (None, (after evs)\<lparr>logged := logged (after evs) @
                        [Info_file_already_processed_or_in_queue p]\<rparr>))"
proof -
  from inv_after [OF assms]
  have le: "unresolved p (after evs) \<le> 1"
    and tracked: "unresolved p (after evs) = 1 \<Longrightarrow> p \<in> processed_files (after evs)"
    by (simp_all add: dedup_inv_def)
  {
    assume "0 < unresolved p (after evs)" and f: "isfile p" and a: "str_arg0 as = Some p"
    with le have "unresolved p (after evs) = 1" by simp
    then have "p \<in> processed_files (after evs)" by (rule tracked)
    then have "add_task isfile priority task_type fn as cb kw (after evs) =
              (None, (after evs)\<lparr>logged := logged (after evs) @
                        [Info_file_already_processed_or_in_queue p]\<rparr>)"
      using a f by (simp add: add_task_duplicate)
  }
  with le show ?thesis by blast
qed

theorem dedup_invariant_witness:
  "list_all (sees_file ''f.pdf'') one_dispatched \<and> unresolved ''f.pdf'' (after one_dispatched) = 1 \<and>
   add_task (\<lambda>_. True) 5 TEXT_EXTRACTION 7 [Str ''f.pdf'', Obj 3] None [] (after one_dispatched) =
     (None, (after one_dispatched)\<lparr>logged := logged (after one_dispatched) @
                        [Info_file_already_processed_or_in_queue ''f.pdf'']\<rparr>)"
proof -
  have h: "list_all (sees_file ''f.pdf'') one_dispatched" by (simp add: one_dispatched_def)
  have u: "unresolved ''f.pdf'' (after one_dispatched) = 1"
    by (simp add: one_dispatched_def after_def init_def add_task_def enqueue_def put_def heappush_def
        siftdown.simps is_processing_file_def run_dispatch_def get_def heappop_def
        unresolved_def about_def)
  from dedup_invariant [OF h, of "\<lambda>_. True" "[Str ''f.pdf'', Obj 3]" 5 TEXT_EXTRACTION 7 None "[]"] h u
  show ?thesis by simp
qed

section \<open>Tracking after a success\<close>

lemma run_result_success:
  assumes "callback task = None \<or> cb = None" and "in_flight s = Some task"
  shows "run_result (Inr result) cb s =
           s\<lparr>in_flight := None, emitted := emitted s @ [task_completed (type task) result]\<rparr>"
  using assms by (auto simp: run_result_def split: option.splits)

lemma kept_add_task:
  assumes "kept p s" and "str_arg0 as = Some p \<longrightarrow> isfile p"
  shows "kept p (snd (add_task isfile priority task_type fn as cb kw s))"
proof (cases "str_arg0 as = Some p")
  case True
  with assms show ?thesis by (simp add: kept_def add_task_duplicate)
next
  case False
  from add_task_other [OF False, where s = s and isfile = isfile and priority = priority
      and task_type = task_type and fn = fn and cb = cb and kw = kw] assms(1)
  show ?thesis by (auto simp: kept_def)
qed

lemma kept_run_dispatch: "kept p s \<Longrightarrow> kept p (run_dispatch s)"
  using unresolved_run_dispatch [of p s] by (simp add: kept_def)

lemma kept_run_result:
  assumes "kept p s"
  shows "kept p (run_result res cb s)"
proof -
  from assms have q: "queued p (task_queue s) = 0"
    and nf: "\<And>task. in_flight s = Some task \<Longrightarrow> \<not> about p task"
    by (auto simp: kept_def unresolved_queued split: option.splits if_splits)
  have "unresolved p (run_result res cb s) = 0"
    using q by (simp add: unresolved_queued run_result_fields)
  moreover have "p \<in> processed_files (run_result res cb s)"
    using processed_files_run_result [of res cb s] assms nf
    by (auto simp: kept_def about_def)
  ultimately show ?thesis by (simp add: kept_def)
qed

lemma kept_step: "kept p s \<Longrightarrow> sees_file p e \<Longrightarrow> \<not> is_stop e \<Longrightarrow> kept p (step s e)"
  by (cases e) (simp_all add: kept_add_task kept_run_dispatch kept_run_result)

lemma kept_foldl:
  "kept p s \<Longrightarrow> list_all (sees_file p) evs \<Longrightarrow> list_all (\<lambda>e. \<not> is_stop e) evs \<Longrightarrow>
   kept p (foldl step s evs)"
  by (induction evs arbitrary: s) (simp_all add: kept_step)

text \<open>
  Claim C10 (tracking is not released on success). Take a run in which every \<open>add_task\<close>
  for \<open>p\<close> finds \<open>p\<close> an existing file, and in which the task the loop waits for, a task
  about \<open>p\<close>, completes: its body returns \<open>result\<close> and its callback, if it has one, does
  not raise. Then, whatever happens afterwards short of \<open>stop\<close>, \<open>p\<close> is still in
  \<open>_processed_files\<close> and every \<open>add_task\<close> for \<open>p\<close> is turned away as a duplicate: it only
  logs. \<open>stop\<close> leaves \<open>_processed_files\<close> empty.
\<close>

theorem dedup_kept_after_success:
  assumes "list_all (sees_file p) (evs @ Finish (Inr result) cb # evs')"
    and "in_flight (after evs) = Some task" and "about p task"
    and "callback task = None \<or> cb = None"
    and "list_all (\<lambda>e. \<not> is_stop e) evs'"
  shows "p \<in> processed_files (after (evs @ Finish (Inr result) cb # evs')) \<and>
         (isfile p \<longrightarrow> str_arg0 as = Some p \<longrightarrow>
            add_task isfile priority task_type fn as cb' kw
                (after (evs @ Finish (Inr result) cb # evs')) =
              (None, (after (evs @ Finish (Inr result) cb # evs'))
                       \<lparr>logged := logged (after (evs @ Finish (Inr result) cb # evs')) @
                                   [Info_file_already_processed_or_in_queue p]\<rparr>)) \<and>
         processed_files (stop res' cb'' (after (evs @ Finish (Inr result) cb # evs'))) = {}"
proof -
  let ?s = "after evs"
  let ?s1 = "run_result (Inr result) cb ?s"
  let ?end = "after (evs @ Finish (Inr result) cb # evs')"
  from assms(1) have sees: "list_all (sees_file p) evs" "list_all (sees_file p) evs'"
    by simp_all
  from inv_after [OF sees(1)] assms(2,3)
  have tracked: "p \<in> processed_files ?s" and q: "queued p (task_queue ?s) = 0"
    by (auto simp: dedup_inv_def unresolved_queued)
  have "kept p ?s1"
    using tracked q assms(2,4)
    by (simp add: run_result_success kept_def unresolved_queued)
  moreover have "?end = foldl step ?s1 evs'"
    by (simp add: after_def)
  ultimately have k: "kept p ?end"
    using kept_foldl [of p ?s1 evs'] sees(2) assms(5) by simp
  then have "p \<in> processed_files ?end" by (simp add: kept_def)
  then show ?thesis
    by (simp add: add_task_duplicate stop_fields)
qed

theorem dedup_kept_after_success_witness:
  "''f.pdf'' \<in> processed_files (after done_once) \<and>
   add_task (\<lambda>_. True) 2 FILE_ORGANIZATION 4 [Str ''f.pdf''] None [] (after done_once) =
     (None, (after done_once)\<lparr>logged := logged (after done_once) @
                        [Info_file_already_processed_or_in_queue ''f.pdf'']\<rparr>) \<and>
   processed_files (stop (Inr (Obj 0)) None (after done_once)) = {}"
proof -
  let ?task = "\<lparr>type = FILE_CONVERSION, func = 0, args = [Str ''f.pdf''], kwargs = [],
                 callback = None\<rparr>"
  let ?evs' = "[Add (\<lambda>_. True) 1 FILE_CONVERSION 0 [Str ''f.pdf''] None [], Dispatch]"
  have d: "done_once = one_dispatched @ Finish (Inr (Obj 0)) None # ?evs'"
    by (simp add: done_once_def)
  have h1: "list_all (sees_file ''f.pdf'') (one_dispatched @ Finish (Inr (Obj 0)) None # ?evs')"
    by (simp add: one_dispatched_def)
  have h2: "in_flight (after one_dispatched) = Some ?task"
    by (simp add: one_dispatched_def eval_defs)
  have h3: "about ''f.pdf'' ?task" by (simp add: about_def)
  have h4: "callback ?task = None \<or> (None :: exn option) = None" by simp
  have h5: "list_all (\<lambda>e. \<not> is_stop e) ?evs'" by simp
  from dedup_kept_after_success [OF h1 h2 h3 h4 h5,
      of "\<lambda>_. True" "[Str ''f.pdf'']" 2 FILE_ORGANIZATION 4 None "[]" "Inr (Obj 0)" None]
  show ?thesis by (simp add: d)
qed

section \<open>A failing task\<close>

lemma run_result_failure:
  assumes "in_flight s = Some task"
  shows "run_result (Inl e) cb s = inner_except e task (s\<lparr>in_flight := None\<rparr>)"
  using assms by (simp add: run_result_def)

lemma put_member: "item \<in> set (snd (put q item))"
proof -
  have "item \<in># mset (snd (put q item))"
    by (simp add: put_def heappush_mset)
  then show ?thesis by simp
qed

text \<open>
  Let the loop be waiting for \<open>task\<close> and let the body raise \<open>e\<close>. Handling that outcome
  is a step of the loop like any other: the loop is not left (\<open>running\<close>, the executor
  and the queue are as before, and it waits for nothing any more), the signal
  \<open>task_failed(task.type, str(e))\<close> is emitted, and when the task's first argument is a
  string, that path is taken out of \<open>_processed_files\<close>.
\<close>

lemma failure_handled:
  assumes "in_flight s = Some task"
  shows "emitted (run_result (Inl e) cb s) = emitted s @ [task_failed (type task) (str_of e)]"
    and "running (run_result (Inl e) cb s) = running s"
    and "executor_shutdown (run_result (Inl e) cb s) = executor_shutdown s"
    and "task_queue (run_result (Inl e) cb s) = task_queue s"
    and "in_flight (run_result (Inl e) cb s) = None"
    and "processed_files (run_result (Inl e) cb s) =
           (case str_arg0 (args task) of
              Some a \<Rightarrow> processed_files s - {a}
            | None \<Rightarrow> processed_files s)"
  using assms by (simp_all add: run_result_failure inner_except_def split: option.splits)

text \<open>
  Claim C5 (retry unlocks dedup), at two runs. In both, the task for \<open>f.pdf\<close> is
  submitted and its body raises \<open>Exception('boom')\<close>; the loop emits
  \<open>task_failed(FILE_CONVERSION, 'boom')\<close>, takes \<open>f.pdf\<close> out of \<open>_processed_files\<close> and
  goes on.

  In \<open>retry_tie\<close> a task of priority 1 that has no path was offered while the task for
  \<open>f.pdf\<close> was in flight, and is still queued. The retry, \<open>add_task\<close> for \<open>f.pdf\<close> with
  priority 1, passes the duplicate check and then raises \<open>TypeError\<close> out of \<open>put\<close>,
  where its entry is compared with the queued entry of equal priority; the debug line is
  not logged.

  In \<open>retry_lost\<close> the queue is empty when \<open>f.pdf\<close> is offered again: \<open>add_task\<close> returns
  and the entry is queued. Two tasks of priority 2 are offered next, and both calls
  return. The next turn of the loop raises \<open>TypeError\<close> inside \<open>get\<close>, where the two
  entries of priority 2 are compared: nothing is submitted, and the entry for \<open>f.pdf\<close> has
  left the queue. The two turns after it submit the two tasks of priority 2 and leave
  the queue empty. The task for \<open>f.pdf\<close> was never submitted, \<open>f.pdf\<close> is still in
  \<open>_processed_files\<close>, and one more \<open>add_task\<close> for it only logs that the file is already
  processed or in the queue.
\<close>

theorem retry_after_failure_breaks_on_tie:
  "in_flight (after (one_dispatched @ [offer 1 TEXT_EXTRACTION 1])) =
     Some \<lparr>type = FILE_CONVERSION, func = 0, args = [Str ''f.pdf''], kwargs = [],
           callback = None\<rparr> \<and>
   emitted (after retry_tie) = [task_failed FILE_CONVERSION ''boom''] \<and>
   processed_files (after retry_tie) = {} \<and>
   running (after retry_tie) \<and> in_flight (after retry_tie) = None \<and>
   task_queue (after retry_tie) = [(1, job TEXT_EXTRACTION 1)] \<and>
   fst (add_task (\<lambda>_. True) 1 FILE_CONVERSION 0 [Str ''f.pdf''] None [] (after retry_tie)) =
     Some TypeError \<and>
   logged (snd (add_task (\<lambda>_. True) 1 FILE_CONVERSION 0 [Str ''f.pdf''] None []
                  (after retry_tie))) = logged (after retry_tie) \<and>
   logged (after retry_lost) =
     [Debug_added_task_to_queue 1 FILE_CONVERSION, Info_processing_task FILE_CONVERSION,
      Error_task_execution_failed ''boom'', Debug_added_task_to_queue 1 FILE_CONVERSION,
      Debug_added_task_to_queue 2 TEXT_EXTRACTION,
      Debug_added_task_to_queue 2 FILE_ORGANIZATION] \<and>
   emitted (after retry_lost) = [task_failed FILE_CONVERSION ''boom''] \<and>
   task_queue (after retry_lost) =
     [(1, \<lparr>type = FILE_CONVERSION, func = 0, args = [Str ''f.pdf''], kwargs = [],
            callback = None\<rparr>),
      (2, job TEXT_EXTRACTION 1), (2, job FILE_ORGANIZATION 2)] \<and>
   in_flight (after (retry_lost @ [Dispatch])) = None \<and>
   task_queue (after (retry_lost @ [Dispatch])) =
     [(2, job TEXT_EXTRACTION 1), (2, job FILE_ORGANIZATION 2)] \<and>
   in_flight (after (retry_lost @ [Dispatch, Dispatch])) = Some (job TEXT_EXTRACTION 1) \<and>
   in_flight (after (retry_lost @ [Dispatch, Dispatch, Finish (Inr (Obj 0)) None, Dispatch])) =
     Some (job FILE_ORGANIZATION 2) \<and>
   task_queue (after (retry_lost @ [Dispatch, Dispatch, Finish (Inr (Obj 0)) None, Dispatch])) =
     [] \<and>
   processed_files
     (after (retry_lost @ [Dispatch, Dispatch, Finish (Inr (Obj 0)) None, Dispatch])) =
     {''f.pdf''} \<and>
   add_task (\<lambda>_. True) 1 FILE_CONVERSION 0 [Str ''f.pdf''] None []
     (after (retry_lost @ [Dispatch, Dispatch, Finish (Inr (Obj 0)) None, Dispatch])) =
     (None, (after (retry_lost @ [Dispatch, Dispatch, Finish (Inr (Obj 0)) None, Dispatch]))
              \<lparr>logged :=
                 logged (after (retry_lost @
                                [Dispatch, Dispatch, Finish (Inr (Obj 0)) None, Dispatch])) @
                 [Info_file_already_processed_or_in_queue ''f.pdf'']\<rparr>)"
  by (simp add: one_dispatched_def retry_tie_def retry_lost_def ex_defs eval_defs Let_def)

section \<open>Tasks of equal priority\<close>

text \<open>Two entries of equal priority and different tasks cannot be compared.\<close>

lemma item_lt_tie: "t1 \<noteq> t2 \<Longrightarrow> item_lt (p, t1) (p, t2) = Inl TypeError"
  by (simp add: item_lt_def)

lemma put_tie: "t1 \<noteq> t2 \<Longrightarrow> put [(p, t1)] (p, t2) = (Some TypeError, [(p, t1), (p, t2)])"
  by (simp add: put_def heappush_def siftdown.simps item_lt_tie)

text \<open>
  Claim C3 (FIFO tie-break), at two tasks of priority 1 offered to a new processor: the
  first \<open>add_task\<close> returns; the second raises \<open>TypeError\<close> out of \<open>put\<close>, after the entry
  was appended to the queue's list, and without the debug line. The queue has no
  insertion sequence to order equal priorities by.
\<close>

theorem equal_priority_add_raises:
  "add_task (\<lambda>_. True) 1 FILE_CONVERSION 0 [Obj 0] None [] init =
     (None, init\<lparr>task_queue := [(1, job FILE_CONVERSION 0)],
                 logged := [Debug_added_task_to_queue 1 FILE_CONVERSION]\<rparr>) \<and>
   add_task (\<lambda>_. True) 1 FILE_CONVERSION 1 [Obj 1] None []
       (init\<lparr>task_queue := [(1, job FILE_CONVERSION 0)],
             logged := [Debug_added_task_to_queue 1 FILE_CONVERSION]\<rparr>) =
     (Some TypeError,
      init\<lparr>task_queue := [(1, job FILE_CONVERSION 0), (1, job FILE_CONVERSION 1)],
           logged := [Debug_added_task_to_queue 1 FILE_CONVERSION]\<rparr>)"
  by (simp add: ex_defs eval_defs)

text \<open>
  With different priorities the comparison is the integers'. Two entries offered to an
  empty queue, in either order, come out lower priority first.
\<close>

lemma item_lt_differ: "fst a \<noteq> fst b \<Longrightarrow> item_lt a b = Inr (fst a < fst b)"
  by (simp add: item_lt_def)

lemma two_entries_in_priority_order:
  assumes "p1 < p2"
  shows "put (snd (put [] (p1, t1))) (p2, t2) = (None, [(p1, t1), (p2, t2)])"
    and "put (snd (put [] (p2, t2))) (p1, t1) = (None, [(p1, t1), (p2, t2)])"
    and "get [(p1, t1), (p2, t2)] = (Inr (p1, t1), [(p2, t2)])"
    and "get [(p2, t2)] = (Inr (p2, t2), [])"
  using assms
  by (simp_all add: put_def heappush_def siftdown.simps item_lt_def get_def heappop_def
      siftup_def siftup_loop.simps)

text \<open>
  So with only two tasks of different priorities in the queue, the loop submits the one of
  lower priority first, whichever was offered first.
\<close>

lemma two_tasks_lower_priority_first:
  assumes "p1 < p2"
  shows "in_flight (after [offer p1 ty1 n1, offer p2 ty2 n2, Dispatch]) = Some (job ty1 n1)"
    and "in_flight (after [offer p2 ty2 n2, offer p1 ty1 n1, Dispatch]) = Some (job ty1 n1)"
    and "in_flight (after [offer p1 ty1 n1, offer p2 ty2 n2, Dispatch, Finish res cb, Dispatch]) =
           Some (job ty2 n2)"
    and "in_flight (after [offer p2 ty2 n2, offer p1 ty1 n1, Dispatch, Finish res cb, Dispatch]) =
           Some (job ty2 n2)"
  using assms by (simp_all add: ex_defs eval_defs split: sum.splits)

text \<open>
  Claim C2 (priority ordering), at seven tasks offered with priorities 1, 2, 4, 3, 3, 5, 6
  to a new processor. Every \<open>add_task\<close> returns (the seven debug lines are logged). The
  first turn of the loop raises \<open>TypeError\<close> inside \<open>get\<close>, where the two tasks of priority
  3 are compared: nothing is submitted, and the task of priority 1 is gone from the queue.
  The second turn submits the task of priority 2. The third submits the task of priority
  4 while a task of priority 3 is still queued; a task of priority 3 is submitted only in
  the turn after.
\<close>

theorem priority_inversion_after_tie:
  "logged (after seven) =
     map (\<lambda>priority. Debug_added_task_to_queue priority FILE_CONVERSION) [1, 2, 4, 3, 3, 5, 6] \<and>
   task_queue (after seven) =
     [(1, job FILE_CONVERSION 0), (2, job FILE_CONVERSION 1), (4, job FILE_CONVERSION 2),
      (3, job FILE_CONVERSION 3), (3, job FILE_CONVERSION 4), (5, job FILE_CONVERSION 5),
      (6, job FILE_CONVERSION 6)] \<and>
   in_flight (after (seven @ [Dispatch])) = None \<and>
   (1, job FILE_CONVERSION 0) \<notin> set (task_queue (after (seven @ [Dispatch]))) \<and>
   in_flight (after (seven @ [Dispatch, Dispatch])) = Some (job FILE_CONVERSION 1) \<and>
   in_flight (after (seven @ [Dispatch, Dispatch, Finish (Inr (Obj 0)) None, Dispatch])) =
     Some (job FILE_CONVERSION 2) \<and>
   (3, job FILE_CONVERSION 3) \<in> set (task_queue
     (after (seven @ [Dispatch, Dispatch, Finish (Inr (Obj 0)) None, Dispatch]))) \<and>
   in_flight (after (seven @ [Dispatch, Dispatch, Finish (Inr (Obj 0)) None, Dispatch,
                              Finish (Inr (Obj 0)) None, Dispatch])) =
     Some (job FILE_CONVERSION 4)"
  by (simp add: ex_defs eval_defs)

text \<open>
  Claim C6 (drain on stop), at three queued tasks with priorities 1, 2, 2 and nothing
  dispatched: \<open>stop\<close> empties the queue, but logs only two tasks as dropped. The first
  \<open>get_nowait\<close> raises \<open>TypeError\<close> where the two tasks of priority 2 are compared, the
  bare \<open>except\<close> swallows it, and the task of priority 1 (the \<open>FILE_CONVERSION\<close> one) has
  left the queue without a log line.
\<close>

theorem stop_drops_without_log:
  "logged (after three) =
     [Debug_added_task_to_queue 1 FILE_CONVERSION, Debug_added_task_to_queue 2 TEXT_EXTRACTION,
      Debug_added_task_to_queue 2 FILE_ORGANIZATION] \<and>
   length (task_queue (after three)) = 3 \<and>
   in_flight (after three) = None \<and>
   task_queue (stop (Inr (Obj 0)) None (after three)) = [] \<and>
   emitted (stop (Inr (Obj 0)) None (after three)) = [] \<and>
   logged (stop (Inr (Obj 0)) None (after three)) =
     logged (after three) @
     [Warning_unprocessed_task_dropped TEXT_EXTRACTION,
      Warning_unprocessed_task_dropped FILE_ORGANIZATION]"
  by (simp add: ex_defs eval_defs stop_def drain.simps)

subsection \<open>Pairwise different priorities\<close>

text \<open>
  When no two entries of the queue have the same priority, no comparison raises:
  \<open>get\<close> returns the root and leaves a queue of the same kind. Then \<open>stop\<close>, called
  with nothing in flight, logs every queued task as dropped, emits no signal, and leaves
  the queue and \<open>_processed_files\<close> empty.
\<close>

lemma distinct_priorities_swap:
  assumes "distinct (map fst heap)" and "i < length heap" and "j < length heap"
  shows "distinct (map fst (heap[i := heap ! j, j := heap ! i]))"
proof -
  have "mset (heap[i := heap ! j, j := heap ! i]) = mset heap"
    using assms(2,3) by (simp add: mset_swap)
  then have "mset (map fst (heap[i := heap ! j, j := heap ! i])) = mset (map fst heap)"
    by (metis mset_map)
  with assms(1) show ?thesis by (metis mset_eq_imp_distinct_iff)
qed

lemma distinct_priorities_lt:
  assumes "distinct (map fst heap)" and "i < length heap" and "j < length heap" and "i \<noteq> j"
  shows "item_lt (heap ! i) (heap ! j) = Inr (fst (heap ! i) < fst (heap ! j))"
proof -
  from assms have "map fst heap ! i \<noteq> map fst heap ! j"
    by (simp add: nth_eq_iff_index_eq del: nth_map)
  with assms(2,3) show ?thesis by (simp add: item_lt_differ)
qed

lemma siftdown_distinct:
  "distinct (map fst heap) \<Longrightarrow> pos < length heap \<Longrightarrow> fst (siftdown heap startpos pos) = None"
proof (induction heap startpos pos rule: siftdown.induct)
  case (1 heap startpos pos)
  show ?case
  proof (cases "startpos < pos")
    case False
    with "1.prems" show ?thesis by (subst siftdown.simps) simp
  next
    case True
    let ?parent = "(pos - 1) div 2"
    from True "1.prems" have p: "?parent < length heap" "pos \<noteq> ?parent" by auto
    from distinct_priorities_lt [OF "1.prems"(1) "1.prems"(2) p(1) p(2)]
    have lt: "item_lt (heap ! pos) (heap ! ?parent) = Inr (fst (heap ! pos) < fst (heap ! ?parent))" .
    show ?thesis
    proof (cases "fst (heap ! pos) < fst (heap ! ?parent)")
      case False
      with True "1.prems" lt show ?thesis by (subst siftdown.simps) simp
    next
      case less: True
      let ?heap' = "heap[?parent := heap ! pos, pos := heap ! ?parent]"
      have "distinct (map fst ?heap')"
        using "1.prems" p(1) by (simp add: distinct_priorities_swap)
      moreover have "?parent < length ?heap'" using p(1) by simp
      moreover from "1.prems" have "\<not> length heap \<le> pos" by simp
      ultimately have "fst (siftdown ?heap' startpos ?parent) = None"
        using "1.IH" [OF _ True lt less] by simp
      with True "1.prems" lt less show ?thesis by (subst siftdown.simps) simp
    qed
  qed
qed

lemma siftup_loop_distinct:
  "distinct (map fst heap) \<Longrightarrow> fst (siftup_loop heap pos) = None \<and>
     (pos < length heap \<longrightarrow> snd (snd (siftup_loop heap pos)) < length heap)"
proof (induction heap pos rule: siftup_loop.induct)
  case (1 heap pos)
  show ?case
  proof (cases "pos < length heap div 2")
    case False
    then show ?thesis by (subst siftup_loop.simps, subst (2) siftup_loop.simps) simp
  next
    case inner: True
    then have p: "pos < length heap" "2 * pos + 1 < length heap" by auto
    show ?thesis
    proof (cases "2 * pos + 2 < length heap")
      case False
      let ?heap' = "heap[2 * pos + 1 := heap ! pos, pos := heap ! (2 * pos + 1)]"
      have "distinct (map fst ?heap')"
        using "1.prems" p by (simp add: distinct_priorities_swap)
      with "1.IH"(3) [OF inner False] p
      have "fst (siftup_loop ?heap' (2 * pos + 1)) = None \<and>
            snd (snd (siftup_loop ?heap' (2 * pos + 1))) < length heap" by simp
      with inner False show ?thesis
        by (subst siftup_loop.simps, subst (2) siftup_loop.simps) simp
    next
      case two: True
      from distinct_priorities_lt [OF "1.prems" p(2) two]
      have lt: "item_lt (heap ! (2 * pos + 1)) (heap ! (2 * pos + 2)) =
                  Inr (fst (heap ! (2 * pos + 1)) < fst (heap ! (2 * pos + 2)))" by simp
      show ?thesis
      proof (cases "fst (heap ! (2 * pos + 1)) < fst (heap ! (2 * pos + 2))")
        case True
        let ?heap' = "heap[2 * pos + 1 := heap ! pos, pos := heap ! (2 * pos + 1)]"
        have "distinct (map fst ?heap')"
          using "1.prems" p by (simp add: distinct_priorities_swap)
        with "1.IH"(1) [OF inner two lt [unfolded True] ] True p
        have "fst (siftup_loop ?heap' (2 * pos + 1)) = None \<and>
              snd (snd (siftup_loop ?heap' (2 * pos + 1))) < length heap" by simp
        with inner two lt True show ?thesis
          by (subst siftup_loop.simps, subst (2) siftup_loop.simps) simp
      next
        case False
        let ?heap' = "heap[2 * pos + 2 := heap ! pos, pos := heap ! (2 * pos + 2)]"
        have "distinct (map fst ?heap')"
          using "1.prems" p two by (simp add: distinct_priorities_swap)
        with "1.IH"(2) [OF inner two lt [unfolded] ] False two
        have "fst (siftup_loop ?heap' (2 * pos + 2)) = None \<and>
              snd (snd (siftup_loop ?heap' (2 * pos + 2))) < length heap" by simp
        with inner two lt False show ?thesis
          by (subst siftup_loop.simps, subst (2) siftup_loop.simps) simp
      qed
    qed
  qed
qed


lemma distinct_priorities_mset:
  "mset heap' = mset heap \<Longrightarrow> distinct (map fst heap) \<Longrightarrow> distinct (map fst heap')"
  by (metis mset_map mset_eq_imp_distinct_iff)

lemma distinct_sub_mset:
  assumes "mset xs \<subseteq># mset ys" and "distinct ys"
  shows "distinct xs"
proof -
  from assms(1) obtain rest where "mset ys = mset xs + rest"
    by (auto simp: subset_mset.le_iff_add)
  moreover obtain zs where "mset zs = rest" using ex_mset by blast
  ultimately have "mset ys = mset (xs @ zs)" by simp
  with assms(2) have "distinct (xs @ zs)" by (metis mset_eq_imp_distinct_iff)
  then show ?thesis by simp
qed

lemma siftup_distinct:
  assumes "distinct (map fst heap)" and "pos < length heap"
  shows "fst (siftup heap pos) = None"
proof (cases "siftup_loop heap pos")
  case (fields r heap' leaf)
  with siftup_loop_distinct [OF assms(1), of pos] assms(2)
  have r: "r = None" and leaf: "leaf < length heap" by simp_all
  from fields siftup_loop_mset [of heap pos] have m: "mset heap' = mset heap" by simp
  then have "length heap' = length heap" by (rule mset_eq_length)
  with leaf distinct_priorities_mset [OF m assms(1)]
  have "fst (siftdown heap' pos leaf) = None" by (simp add: siftdown_distinct)
  with fields r assms(2) show ?thesis by (simp add: siftup_def)
qed

lemma get_distinct:
  assumes "distinct (map fst q)" and "q \<noteq> []"
  shows "fst (get q) = Inr (hd q)" and "distinct (map fst (snd (get q)))"
proof -
  show "fst (get q) = Inr (hd q)"
  proof (cases "butlast q = []")
    case True
    with assms(2) obtain x where "q = [x]" by (cases q) (simp_all split: if_splits)
    then show ?thesis by (simp add: get_def heappop_def)
  next
    case False
    let ?h = "(butlast q)[0 := last q]"
    have len: "0 < length (butlast q)" using False by (simp del: length_butlast)
    then have "mset ?h = add_mset (last q) (mset (butlast q) - {#butlast q ! 0#})"
      by (rule mset_update)
    moreover have "mset q = add_mset (last q) (mset (butlast q))"
      using assms(2)
      by (metis append_butlast_last_id mset.simps(1) mset.simps(2) mset_append
          union_mset_add_mset_right add.right_neutral)
    ultimately have "mset ?h \<subseteq># mset q"
      by (simp add: diff_subset_eq_self)
    then have "mset (map fst ?h) \<subseteq># mset (map fst q)"
      by (metis image_mset_subseteq_mono mset_map)
    with assms(1) have "distinct (map fst ?h)"
      by (rule distinct_sub_mset [rotated])
    moreover have "0 < length ?h" using len by simp
    ultimately have "fst (siftup ?h 0) = None" by (rule siftup_distinct)
    with assms(2) False show ?thesis
      by (cases "siftup ?h 0") (simp add: get_def heappop_def)
  qed
  from get_mset [OF assms(2)] have "mset q = mset (snd (get q)) + {#hd q#}" by simp
  then have "mset (snd (get q)) \<subseteq># mset q"
    by (simp add: subset_mset.le_iff_add)
  then have "mset (map fst (snd (get q))) \<subseteq># mset (map fst q)"
    by (metis image_mset_subseteq_mono mset_map)
  with assms(1) show "distinct (map fst (snd (get q)))"
    by (rule distinct_sub_mset [rotated])
qed

lemma drain_distinct:
  "distinct (map fst (task_queue s)) \<Longrightarrow>
   \<exists>order. mset order = mset (task_queue s) \<and>
     logged (drain s) =
       logged s @ map (\<lambda>item. Warning_unprocessed_task_dropped (type (snd item))) order"
proof (induction s rule: drain.induct)
  case (1 s)
  show ?case
  proof (cases "task_queue s = []")
    case True
    then show ?thesis by (subst drain.simps) simp
  next
    case False
    obtain x q where g: "get (task_queue s) = (x, q)" by (cases "get (task_queue s)")
    from get_distinct [OF "1.prems" False] g
    have x: "x = Inr (hd (task_queue s))" and d: "distinct (map fst q)" by simp_all
    obtain priority task where it: "hd (task_queue s) = (priority, task)"
      by (cases "hd (task_queue s)")
    let ?s1 = "s\<lparr>task_queue := q,
                  logged := logged s @ [Warning_unprocessed_task_dropped (type task)]\<rparr>"
    from "1.IH"(2) [OF False g [symmetric] x it [symmetric]] d
    obtain order where o: "mset order = mset q"
      "logged (drain ?s1) = logged ?s1 @
         map (\<lambda>item. Warning_unprocessed_task_dropped (type (snd item))) order"
      by auto
    from get_mset [OF False] g have m: "mset (task_queue s) = add_mset (priority, task) (mset q)"
      by (simp add: it)
    have "drain s = drain ?s1"
      using False g x it by (subst drain.simps) simp
    with o m have "mset ((priority, task) # order) = mset (task_queue s) \<and>
      logged (drain s) = logged s @
        map (\<lambda>item. Warning_unprocessed_task_dropped (type (snd item))) ((priority, task) # order)"
      by simp
    then show ?thesis by blast
  qed
qed

lemma stop_logs_every_task:
  assumes "in_flight s = None" and "distinct (map fst (task_queue s))"
  shows "\<exists>order. mset order = mset (task_queue s) \<and>
     logged (stop res cb s) =
       logged s @ map (\<lambda>item. Warning_unprocessed_task_dropped (type (snd item))) order \<and>
     emitted (stop res cb s) = emitted s \<and> task_queue (stop res cb s) = [] \<and>
     processed_files (stop res cb s) = {} \<and> \<not> running (stop res cb s) \<and>
     executor_shutdown (stop res cb s)"
proof -
  let ?s0 = "s\<lparr>running := False, executor_shutdown := True\<rparr>"
  from drain_distinct [of ?s0] assms(2)
  obtain order where o: "mset order = mset (task_queue s)"
    "logged (drain ?s0) =
       logged s @ map (\<lambda>item. Warning_unprocessed_task_dropped (type (snd item))) order"
    by auto
  obtain lg where d: "drain ?s0 = ?s0\<lparr>task_queue := [], logged := lg\<rparr>"
    using drain_frame [of ?s0] by auto
  with o(2) have lg: "lg = logged s @
      map (\<lambda>item. Warning_unprocessed_task_dropped (type (snd item))) order" by simp
  have "stop res cb s = ?s0\<lparr>task_queue := [], logged := lg, processed_files := {}\<rparr>"
    using assms(1) by (simp add: stop_def d run_result_def)
  with o(1) lg show ?thesis by auto
qed

subsection \<open>The lowest priority first\<close>

text \<open>
  With pairwise different priorities no comparison falls through to the tasks, so
  \<open>siftdown\<close> and \<open>siftup\<close> restore the heap order, the root of the queue has the lowest
  priority, and the loop submits the queued task of the lowest priority.
\<close>

lemma parent_less: "0 < i \<Longrightarrow> (i - 1) div 2 < (i :: nat)"
  by arith

lemma siftdown_heap:
  "heap_but heap pos \<Longrightarrow> distinct (map fst heap) \<Longrightarrow> pos < length heap \<Longrightarrow>
   is_heap (snd (siftdown heap 0 pos))"
proof (induction heap "0 :: nat" pos rule: siftdown.induct)
  case (1 heap pos)
  show ?case
  proof (cases "0 < pos")
    case False
    with "1.prems" have "is_heap heap" by (auto simp: heap_but_def is_heap_def)
    with False "1.prems" show ?thesis by (subst siftdown.simps) simp
  next
    case True
    let ?parent = "(pos - 1) div 2"
    from True "1.prems" have p: "?parent < length heap" "pos \<noteq> ?parent" "?parent < pos" by auto
    from distinct_priorities_lt [OF "1.prems"(2) "1.prems"(3) p(1) p(2)]
    have lt: "item_lt (heap ! pos) (heap ! ?parent) = Inr (fst (heap ! pos) < fst (heap ! ?parent))" .
    show ?thesis
    proof (cases "fst (heap ! pos) < fst (heap ! ?parent)")
      case False
      then have "heap_edge heap pos" by (simp add: heap_edge_def)
      with "1.prems"(1) have "is_heap heap"
        unfolding heap_but_def is_heap_def by metis
      with True "1.prems" lt False show ?thesis by (subst siftdown.simps) simp
    next
      case less: True
      let ?heap' = "heap[?parent := heap ! pos, pos := heap ! ?parent]"
      have d: "distinct (map fst ?heap')"
        using "1.prems" p(1) by (simp add: distinct_priorities_swap)
      have len: "?parent < length ?heap'" using p(1) by simp
      have nth: "?heap' ! i = (if i = pos then heap ! ?parent else if i = ?parent then heap ! pos
                               else heap ! i)" if "i < length heap" for i
        using that p "1.prems"(3) by (simp add: nth_list_update)
      have "heap_but ?heap' ?parent"
        unfolding heap_but_def
      proof (intro conjI allI impI)
        fix i assume i: "0 < i \<and> i < length ?heap' \<and> i \<noteq> ?parent"
        then have il: "i < length heap" "(i - 1) div 2 < length heap" by auto
        show "heap_edge ?heap' i"
        proof (cases "i = pos")
          case True
          with less p "1.prems"(3) show ?thesis
            by (simp add: heap_edge_def nth_list_update)
        next
          case ne: False
          show ?thesis
          proof (cases "(i - 1) div 2 = pos")
            case True
            with "1.prems"(1) i il \<open>0 < pos\<close>
            have "fst (heap ! ?parent) \<le> fst (heap ! i)"
              unfolding heap_but_def by auto
            with True ne i il show ?thesis
              by (simp add: heap_edge_def nth)
          next
            case npc: False
            from "1.prems"(1) i ne il have e: "heap_edge heap i"
              unfolding heap_but_def by auto
            show ?thesis
            proof (cases "(i - 1) div 2 = ?parent")
              case True
              with e less ne i il npc show ?thesis
                by (simp add: heap_edge_def nth)
            next
              case False
              with e ne i il npc show ?thesis
                by (simp add: heap_edge_def nth)
            qed
          qed
        qed
      next
        fix i assume i: "0 < ?parent \<and> i < length ?heap' \<and> 0 < i \<and> (i - 1) div 2 = ?parent"
        then have il: "i < length heap" by simp
        from i parent_less [of ?parent] have "(?parent - 1) div 2 < ?parent" by simp
        with p have gp: "(?parent - 1) div 2 < length heap" "(?parent - 1) div 2 \<noteq> pos"
          "(?parent - 1) div 2 \<noteq> ?parent" by simp_all
        from "1.prems"(1) i p have up: "heap_edge heap ?parent"
          unfolding heap_but_def by auto
        show "fst (?heap' ! ((?parent - 1) div 2)) \<le> fst (?heap' ! i)"
        proof (cases "i = pos")
          case True
          with up gp "1.prems"(3) show ?thesis by (simp add: nth heap_edge_def)
        next
          case False
          with "1.prems"(1) i il have "heap_edge heap i" unfolding heap_but_def by auto
          with i have "fst (heap ! ?parent) \<le> fst (heap ! i)" by (simp add: heap_edge_def)
          with up have "fst (heap ! ((?parent - 1) div 2)) \<le> fst (heap ! i)"
            by (simp add: heap_edge_def)
          moreover from i parent_less [of i] have "i \<noteq> ?parent" by simp
          ultimately show ?thesis using False gp il by (simp add: nth)
        qed
      qed
      moreover from "1.prems" have "\<not> length heap \<le> pos" by simp
      ultimately have "is_heap (snd (siftdown ?heap' 0 ?parent))"
        using "1.hyps" [OF _ True lt less] d len by simp
      with True "1.prems" lt less show ?thesis by (subst siftdown.simps) simp
    qed
  qed
qed


lemma heap_hole_step:
  assumes "heap_hole heap pos" and "c < length heap" and "0 < c" and "(c - 1) div 2 = pos"
    and least: "\<forall>i. i < length heap \<and> 0 < i \<and> (i - 1) div 2 = pos \<longrightarrow>
                  fst (heap ! c) \<le> fst (heap ! i)"
  shows "heap_hole (heap[c := heap ! pos, pos := heap ! c]) c"
proof -
  let ?heap' = "heap[c := heap ! pos, pos := heap ! c]"
  from assms(3,4) parent_less [of c] have pc: "pos < c" by simp
  with assms(2) have pl: "pos < length heap" by simp
  have nth: "?heap' ! i = (if i = pos then heap ! c else if i = c then heap ! pos else heap ! i)"
    if "i < length heap" for i
    using that pc assms(2) by (simp add: nth_list_update)
  show ?thesis
    unfolding heap_hole_def
  proof (intro conjI allI impI)
    fix i assume i: "0 < i \<and> i < length ?heap' \<and> i \<noteq> c \<and> (i - 1) div 2 \<noteq> c"
    then have il: "i < length heap" and ipl: "(i - 1) div 2 < length heap" by auto
    from i parent_less [of i] have ip: "(i - 1) div 2 \<noteq> i" by simp
    show "heap_edge ?heap' i"
    proof (cases "i = pos")
      case True
      with i have "0 < pos" by simp
      with assms(1,2,3,4) have "fst (heap ! ((pos - 1) div 2)) \<le> fst (heap ! c)"
        unfolding heap_hole_def by blast
      moreover from \<open>0 < pos\<close> parent_less [of pos] pc
      have "(pos - 1) div 2 \<noteq> pos" "(pos - 1) div 2 \<noteq> c" "(pos - 1) div 2 < length heap"
        using pl by simp_all
      ultimately show ?thesis using True pl by (simp add: heap_edge_def nth)
    next
      case ne: False
      show ?thesis
      proof (cases "(i - 1) div 2 = pos")
        case True
        with least i il have "fst (heap ! c) \<le> fst (heap ! i)" by blast
        with True ne i il pl show ?thesis by (simp add: heap_edge_def nth)
      next
        case False
        with assms(1) i il ne have "heap_edge heap i" unfolding heap_hole_def by blast
        with False ne i il ipl show ?thesis by (simp add: heap_edge_def nth)
      qed
    qed
  next
    fix i assume i: "0 < c \<and> i < length ?heap' \<and> 0 < i \<and> (i - 1) div 2 = c"
    then have il: "i < length heap" by simp
    from i parent_less [of i] have ic: "c < i" by simp
    with pc have ne: "i \<noteq> pos" "i \<noteq> c" by simp_all
    from i pc have "(i - 1) div 2 \<noteq> pos" by simp
    with assms(1) i il ne have "heap_edge heap i" unfolding heap_hole_def by blast
    with i have "fst (heap ! c) \<le> fst (heap ! i)" by (simp add: heap_edge_def)
    with ne il pl assms(4) show "fst (?heap' ! ((c - 1) div 2)) \<le> fst (?heap' ! i)"
      by (simp add: nth)
  qed
qed

lemma child_cases:
  "0 < i \<Longrightarrow> (i - 1) div 2 = pos \<Longrightarrow> i = 2 * pos + 1 \<or> i = 2 * pos + (2 :: nat)"
  by arith

lemma siftup_loop_heap:
  "heap_hole heap pos \<Longrightarrow> distinct (map fst heap) \<Longrightarrow> pos < length heap \<Longrightarrow>
   heap_but (fst (snd (siftup_loop heap pos))) (snd (snd (siftup_loop heap pos)))"
proof (induction heap pos rule: siftup_loop.induct)
  case (1 heap pos)
  show ?case
  proof (cases "pos < length heap div 2")
    case False
    then have "\<not> (i < length heap \<and> 0 < i \<and> (i - 1) div 2 = pos)" for i by arith
    with "1.prems"(1) have "heap_but heap pos"
      unfolding heap_hole_def heap_but_def by blast
    with False show ?thesis by (subst siftup_loop.simps, subst (2) siftup_loop.simps) simp
  next
    case inner: True
    then have p: "pos < length heap" "2 * pos + 1 < length heap" by auto
    show ?thesis
    proof (cases "2 * pos + 2 < length heap")
      case False
      let ?c = "2 * pos + 1"
      let ?heap' = "heap[?c := heap ! pos, pos := heap ! ?c]"
      have "i = ?c" if "i < length heap \<and> 0 < i \<and> (i - 1) div 2 = pos" for i
        using that False child_cases [of i pos] by auto
      then have "\<forall>i. i < length heap \<and> 0 < i \<and> (i - 1) div 2 = pos \<longrightarrow>
                  fst (heap ! ?c) \<le> fst (heap ! i)" by auto
      with heap_hole_step [OF "1.prems"(1) p(2), of ] have "heap_hole ?heap' ?c" by simp
      moreover have "distinct (map fst ?heap')"
        using "1.prems" p by (simp add: distinct_priorities_swap)
      ultimately have "heap_but (fst (snd (siftup_loop ?heap' ?c))) (snd (snd (siftup_loop ?heap' ?c)))"
        using "1.IH"(3) [OF inner False] p by simp
      with inner False show ?thesis
        by (subst siftup_loop.simps, subst (2) siftup_loop.simps) simp
    next
      case two: True
      from distinct_priorities_lt [OF "1.prems"(2) p(2) two]
      have lt: "item_lt (heap ! (2 * pos + 1)) (heap ! (2 * pos + 2)) =
                  Inr (fst (heap ! (2 * pos + 1)) < fst (heap ! (2 * pos + 2)))" by simp
      show ?thesis
      proof (cases "fst (heap ! (2 * pos + 1)) < fst (heap ! (2 * pos + 2))")
        case True
        let ?c = "2 * pos + 1"
        let ?heap' = "heap[?c := heap ! pos, pos := heap ! ?c]"
        have "fst (heap ! ?c) \<le> fst (heap ! i)"
          if "i < length heap \<and> 0 < i \<and> (i - 1) div 2 = pos" for i
          using that True child_cases [of i pos] by auto
        then have "\<forall>i. i < length heap \<and> 0 < i \<and> (i - 1) div 2 = pos \<longrightarrow>
                  fst (heap ! ?c) \<le> fst (heap ! i)" by auto
        with heap_hole_step [OF "1.prems"(1) p(2)] have "heap_hole ?heap' ?c" by simp
        moreover have "distinct (map fst ?heap')"
          using "1.prems" p by (simp add: distinct_priorities_swap)
        ultimately have "heap_but (fst (snd (siftup_loop ?heap' ?c))) (snd (snd (siftup_loop ?heap' ?c)))"
          using "1.IH"(1) [OF inner two lt True] p by simp
        with inner two lt True show ?thesis
          by (subst siftup_loop.simps, subst (2) siftup_loop.simps) simp
      next
        case False
        let ?c = "2 * pos + 2"
        let ?heap' = "heap[?c := heap ! pos, pos := heap ! ?c]"
        have "fst (heap ! ?c) \<le> fst (heap ! i)"
          if "i < length heap \<and> 0 < i \<and> (i - 1) div 2 = pos" for i
          using that False child_cases [of i pos] by auto
        then have "\<forall>i. i < length heap \<and> 0 < i \<and> (i - 1) div 2 = pos \<longrightarrow>
                  fst (heap ! ?c) \<le> fst (heap ! i)" by auto
        with heap_hole_step [OF "1.prems"(1) two] have "heap_hole ?heap' ?c" by simp
        moreover have "distinct (map fst ?heap')"
          using "1.prems" p two by (simp add: distinct_priorities_swap)
        ultimately have "heap_but (fst (snd (siftup_loop ?heap' ?c))) (snd (snd (siftup_loop ?heap' ?c)))"
          using "1.IH"(2) [OF inner two lt False] two by simp
        with inner two lt False show ?thesis
          by (subst siftup_loop.simps, subst (2) siftup_loop.simps) simp
      qed
    qed
  qed
qed


lemma siftup_heap:
  assumes "heap_hole heap 0" and "distinct (map fst heap)" and "0 < length heap"
  shows "is_heap (snd (siftup heap 0))"
proof (cases "siftup_loop heap 0")
  case (fields r heap' leaf)
  from siftup_loop_distinct [OF assms(2), of 0] assms(3) fields
  have r: "r = None" and leaf: "leaf < length heap" by simp_all
  from fields siftup_loop_mset [of heap 0] have m: "mset heap' = mset heap" by simp
  then have len: "length heap' = length heap" by (rule mset_eq_length)
  from siftup_loop_heap [OF assms] fields have "heap_but heap' leaf" by simp
  with distinct_priorities_mset [OF m assms(2)] leaf len
  have "is_heap (snd (siftdown heap' 0 leaf))" by (simp add: siftdown_heap)
  with fields r assms(3) show ?thesis by (simp add: siftup_def)
qed

lemma put_heap:
  assumes "is_heap q" and "distinct (map fst (q @ [item]))"
  shows "fst (put q item) = None" and "is_heap (snd (put q item))"
proof -
  have "heap_but (q @ [item]) (length q)"
    unfolding heap_but_def
  proof (intro conjI allI impI)
    fix i assume i: "0 < i \<and> i < length (q @ [item]) \<and> i \<noteq> length q"
    then have il: "i < length q" by simp
    with i parent_less [of i] have "(i - 1) div 2 < length q" by simp
    with assms(1) i il show "heap_edge (q @ [item]) i"
      by (simp add: is_heap_def heap_edge_def nth_append)
  next
    fix i assume i: "0 < length q \<and> i < length (q @ [item]) \<and> 0 < i \<and> (i - 1) div 2 = length q"
    with parent_less [of i] have False by simp
    then show "fst ((q @ [item]) ! ((length q - 1) div 2)) \<le> fst ((q @ [item]) ! i)" ..
  qed
  with assms(2) show "is_heap (snd (put q item))"
    by (simp add: put_def heappush_def siftdown_heap)
  from assms(2) show "fst (put q item) = None"
    by (simp add: put_def heappush_def siftdown_distinct)
qed

lemma get_heap:
  assumes "is_heap q" and "distinct (map fst q)"
  shows "is_heap (snd (get q))"
proof (cases "q = [] \<or> butlast q = []")
  case True
  then show ?thesis by (auto simp: get_def heappop_def is_heap_def)
next
  case False
  then have ne: "q \<noteq> []" "butlast q \<noteq> []" by simp_all
  let ?h = "(butlast q)[0 := last q]"
  have len: "0 < length (butlast q)" using ne(2) by (simp del: length_butlast)
  have "heap_hole ?h 0"
    unfolding heap_hole_def
  proof (intro conjI allI impI)
    fix i assume i: "0 < i \<and> i < length ?h \<and> i \<noteq> 0 \<and> (i - 1) div 2 \<noteq> 0"
    then have il: "i < length (butlast q)" by simp
    with i parent_less [of i] have pl: "(i - 1) div 2 < length (butlast q)" by simp
    from il have "i < length q" by simp
    with assms(1) i have "heap_edge q i" by (simp add: is_heap_def)
    with i il pl show "heap_edge ?h i"
      by (simp add: heap_edge_def nth_butlast)
  qed simp
  moreover have "distinct (map fst ?h)"
    using get_distinct(2) [OF assms(2) ne(1)] ne siftup_mset [of ?h 0]
      distinct_priorities_mset [of ?h "snd (siftup ?h 0)"]
    by (auto simp: get_def heappop_def split: prod.splits option.splits)
  ultimately have "is_heap (snd (siftup ?h 0))"
    using len by (simp add: siftup_heap)
  with ne show ?thesis
    by (auto simp: get_def heappop_def split: prod.splits option.splits)
qed

lemma heap_root_least:
  assumes "is_heap q"
  shows "i < length q \<Longrightarrow> fst (q ! 0) \<le> fst (q ! i)"
proof (induction i rule: less_induct)
  case (less i)
  show ?case
  proof (cases "i = 0")
    case True
    then show ?thesis by simp
  next
    case False
    then have "(i - 1) div 2 < i" by (simp add: parent_less)
    with less have "fst (q ! 0) \<le> fst (q ! ((i - 1) div 2))" by simp
    moreover from assms False less.prems have "heap_edge q i" by (simp add: is_heap_def)
    ultimately show ?thesis by (simp add: heap_edge_def)
  qed
qed

lemma heap_hd_least:
  assumes "is_heap q" and "x \<in> set q"
  shows "fst (hd q) \<le> fst x"
proof -
  from assms(2) obtain i where "i < length q" "q ! i = x" by (auto simp: in_set_conv_nth)
  with heap_root_least [OF assms(1), of i] show ?thesis
    by (cases q) auto
qed

lemma orderly_put:
  assumes "is_heap q" and "distinct (map fst q)" and "fst ` set q \<subseteq> set ps"
    and "priority \<notin> set ps"
  shows "is_heap (snd (put q (priority, task)))"
    and "distinct (map fst (snd (put q (priority, task))))"
    and "fst ` set (snd (put q (priority, task))) \<subseteq> set (ps @ [priority])"
proof -
  from assms(2,3,4) have d: "distinct (map fst (q @ [(priority, task)]))" by auto
  with assms(1) show "is_heap (snd (put q (priority, task)))" by (rule put_heap(2))
  have m: "mset (snd (put q (priority, task))) = mset (q @ [(priority, task)])"
    by (simp add: put_def heappush_mset)
  from m d show "distinct (map fst (snd (put q (priority, task))))"
    by (rule distinct_priorities_mset)
  from m have "set (snd (put q (priority, task))) = set (q @ [(priority, task)])"
    by (rule mset_eq_setD)
  with assms(3) show "fst ` set (snd (put q (priority, task))) \<subseteq> set (ps @ [priority])"
    by auto
qed

lemma orderly_enqueue:
  assumes "orderly ps s" and "priority \<notin> set ps"
  shows "orderly (ps @ [priority]) (snd (enqueue priority task s))"
  using assms orderly_put [of "task_queue s" ps priority task]
  by (simp add: orderly_def enqueue_fields)

lemma orderly_frame [simp]:
  "orderly ps (s\<lparr>processed_files := pf\<rparr>) = orderly ps s"
  "orderly ps (s\<lparr>logged := lg\<rparr>) = orderly ps s"
  by (simp_all add: orderly_def)

lemma orderly_more: "orderly ps s \<Longrightarrow> orderly (ps @ qs) s"
  by (auto simp: orderly_def)

lemma orderly_add_task:
  assumes "orderly ps s" and "priority \<notin> set ps"
  shows "orderly (ps @ [priority]) (snd (add_task isfile priority task_type fn as cb kw s))"
proof -
  let ?task = "\<lparr>type = task_type, func = fn, args = as, kwargs = kw, callback = cb\<rparr>"
  consider (u) "str_arg0 as = None \<or> (\<exists>a. str_arg0 as = Some a \<and> \<not> isfile a)"
    | (d) a where "str_arg0 as = Some a" "isfile a" "a \<in> processed_files s \<or> is_processing_file s a"
    | (t) a where "str_arg0 as = Some a" "isfile a" "a \<notin> processed_files s" "\<not> is_processing_file s a"
    by (cases "str_arg0 as") auto
  then show ?thesis
  proof cases
    case u
    with assms show ?thesis by (simp add: add_task_untracked orderly_enqueue)
  next
    case d
    with assms(1) show ?thesis by (simp add: add_task_duplicate orderly_more)
  next
    case t
    with assms orderly_enqueue [of ps "s\<lparr>processed_files := insert a (processed_files s)\<rparr>"
        priority ?task]
    show ?thesis by (simp add: add_task_tracked)
  qed
qed

lemma task_queue_run_dispatch:
  "task_queue (run_dispatch s) = task_queue s \<or>
   task_queue (run_dispatch s) = snd (get (task_queue s))"
  by (auto simp: run_dispatch_def Let_def split: prod.splits sum.splits exn.splits)

lemma orderly_get:
  assumes "orderly ps s"
  shows "orderly ps (s\<lparr>task_queue := snd (get (task_queue s))\<rparr>)"
proof (cases "task_queue s = []")
  case True
  with assms show ?thesis by (simp add: orderly_def get_def)
next
  case False
  from get_mset [OF False] have "set (snd (get (task_queue s))) \<subseteq> set (task_queue s)"
    by (metis set_mset_mset subset_insertI set_mset_add_mset_insert)
  with assms get_heap [of "task_queue s"] get_distinct(2) [OF _ False] show ?thesis
    by (auto simp: orderly_def)
qed

lemma orderly_run_dispatch: "orderly ps s \<Longrightarrow> orderly ps (run_dispatch s)"
  using task_queue_run_dispatch [of s] orderly_get [of ps s]
  by (fastforce simp: orderly_def)

lemma orderly_step:
  assumes "orderly ps s" and "distinct (ps @ offered e)"
  shows "orderly (ps @ offered e) (step s e)"
proof (cases e)
  case (Add isfile priority task_type fn as cb kw)
  with assms show ?thesis by (simp add: orderly_add_task)
next
  case Dispatch
  with assms show ?thesis by (simp add: orderly_run_dispatch)
next
  case (Finish res cb)
  with assms show ?thesis by (simp add: orderly_def run_result_fields)
next
  case (Stop res cb)
  then show ?thesis by (simp add: orderly_def stop_fields is_heap_def)
qed

lemma orderly_after: "distinct (priorities evs) \<Longrightarrow> orderly (priorities evs) (after evs)"
proof (induction evs rule: rev_induct)
  case Nil
  show ?case by (simp add: orderly_def after_def init_def is_heap_def priorities_def)
next
  case (snoc e evs)
  then have "orderly (priorities evs) (after evs)" by (simp add: priorities_def)
  with snoc.prems have "orderly (priorities evs @ offered e) (step (after evs) e)"
    by (intro orderly_step) (simp_all add: priorities_def)
  then show ?case by (simp add: after_def priorities_def)
qed

lemma lowest_priority_dispatched_first:
  assumes "distinct (priorities evs)"
    and "running (after evs)" and "in_flight (after evs) = None"
    and "\<not> executor_shutdown (after evs)" and "task_queue (after evs) \<noteq> []"
  shows "\<exists>priority task.
           in_flight (run_dispatch (after evs)) = Some task \<and>
           (priority, task) \<in> set (task_queue (after evs)) \<and>
           (\<forall>x \<in> set (task_queue (after evs)). priority \<le> fst x) \<and>
           mset (task_queue (after evs)) =
             add_mset (priority, task) (mset (task_queue (run_dispatch (after evs))))"
proof -
  let ?s = "after evs"
  from orderly_after [OF assms(1)]
  have h: "is_heap (task_queue ?s)" and d: "distinct (map fst (task_queue ?s))"
    by (simp_all add: orderly_def)
  obtain priority task where hd: "hd (task_queue ?s) = (priority, task)"
    by (cases "hd (task_queue ?s)")
  from get_distinct(1) [OF d assms(5)] hd
  obtain q where g: "get (task_queue ?s) = (Inr (priority, task), q)"
    by (cases "get (task_queue ?s)") simp
  with assms(2,3,4)
  have "in_flight (run_dispatch ?s) = Some task"
    "task_queue (run_dispatch ?s) = snd (get (task_queue ?s))"
    by (simp_all add: run_dispatch_def Let_def)
  moreover from assms(5) hd have "(priority, task) \<in> set (task_queue ?s)"
    by (metis hd_in_set)
  moreover from heap_hd_least [OF h] hd have "\<forall>x \<in> set (task_queue ?s). priority \<le> fst x"
    by simp
  moreover from get_mset [OF assms(5)] hd
  have "mset (task_queue ?s) = add_mset (priority, task) (mset (snd (get (task_queue ?s))))"
    by simp
  ultimately show ?thesis by auto
qed

subsection \<open>A retry among different priorities\<close>

text \<open>
  Take a run without \<open>stop\<close> in which the priorities offered are pairwise different and
  every \<open>add_task\<close> for \<open>p\<close> finds \<open>p\<close> an existing file, and let the task in flight, a
  task about \<open>p\<close>, fail. Then an \<open>add_task\<close> for \<open>p\<close> with a priority not offered before
  raises nothing, and the loop submits the new task within as many turns as there are
  queued tasks, whatever the outcomes of the tasks before it.
\<close>

lemma executor_shutdown_enqueue [simp]:
  "executor_shutdown (snd (enqueue priority task s)) = executor_shutdown s"
  by (simp add: enqueue_def split: prod.splits option.splits)

lemma executor_shutdown_add_task [simp]:
  "executor_shutdown (snd (add_task isfile priority task_type fn as cb kw s)) =
     executor_shutdown s"
  by (simp add: add_task_def Let_def split: option.splits)

lemma running_add_task [simp]:
  "running (snd (add_task isfile priority task_type fn as cb kw s)) = running s"
  by (simp add: add_task_def Let_def enqueue_fields split: option.splits)

lemma in_flight_add_task [simp]:
  "in_flight (snd (add_task isfile priority task_type fn as cb kw s)) = in_flight s"
  by (simp add: add_task_def Let_def enqueue_fields split: option.splits)

lemma executor_shutdown_outer_except [simp]:
  "executor_shutdown (outer_except e s) = executor_shutdown s"
  by (simp add: outer_except_def split: option.splits)

lemma run_dispatch_keeps [simp]:
  "running (run_dispatch s) = running s"
  "executor_shutdown (run_dispatch s) = executor_shutdown s"
  by (simp_all add: run_dispatch_def Let_def split: prod.splits sum.splits exn.splits)

lemma executor_shutdown_run_result [simp]:
  "executor_shutdown (run_result res cb s) = executor_shutdown s"
  by (simp add: run_result_def inner_except_def split: option.splits sum.splits prod.splits)

lemma open_step:
  "\<not> is_stop e \<Longrightarrow> running (step s e) = running s \<and>
     executor_shutdown (step s e) = executor_shutdown s"
  by (cases e) (simp_all add: run_result_fields)

lemma open_foldl:
  "list_all (\<lambda>e. \<not> is_stop e) evs \<Longrightarrow>
   running (foldl step s evs) = running s \<and>
   executor_shutdown (foldl step s evs) = executor_shutdown s"
  by (induction evs arbitrary: s) (simp_all add: open_step)

lemma open_after:
  "list_all (\<lambda>e. \<not> is_stop e) evs \<Longrightarrow> running (after evs) \<and> \<not> executor_shutdown (after evs)"
  using open_foldl [of evs init] by (simp add: after_def init_def)

lemma queued_task_dispatched:
  assumes "is_heap (task_queue s)" and "distinct (map fst (task_queue s))"
    and "running s" and "\<not> executor_shutdown s" and "in_flight s = None"
    and "(priority, task) \<in> set (task_queue s)"
    and "length (task_queue s) \<le> length outcomes"
  shows "\<exists>st \<in> set (serve outcomes s). in_flight st = Some task"
  using assms
proof (induction outcomes arbitrary: s)
  case Nil
  then show ?case by simp
next
  case (Cons outcome outcomes)
  obtain res cb where outcome: "outcome = (res, cb)" by (cases outcome)
  from Cons.prems(6) have ne: "task_queue s \<noteq> []" by auto
  obtain p0 t0 where hd: "hd (task_queue s) = (p0, t0)" by (cases "hd (task_queue s)")
  from get_distinct(1) [OF Cons.prems(2) ne] hd
  obtain q where g: "get (task_queue s) = (Inr (p0, t0), q)"
    by (cases "get (task_queue s)") simp
  with Cons.prems(3,4,5)
  have d: "in_flight (run_dispatch s) = Some t0" "task_queue (run_dispatch s) = q"
    by (simp_all add: run_dispatch_def Let_def)
  show ?case
  proof (cases "(priority, task) = (p0, t0)")
    case True
    with d(1) show ?thesis by (simp add: outcome)
  next
    case False
    let ?s' = "run_result res cb (run_dispatch s)"
    from g have q: "q = snd (get (task_queue s))" by simp
    from get_mset [OF ne] hd q have m: "mset (task_queue s) = add_mset (p0, t0) (mset q)"
      by simp
    then have "set (task_queue s) = insert (p0, t0) (set q)"
      by (metis set_mset_mset set_mset_add_mset_insert)
    with Cons.prems(6) False have "(priority, task) \<in> set q" by auto
    moreover from get_heap [OF Cons.prems(1,2)] q have "is_heap q" by simp
    moreover from get_distinct(2) [OF Cons.prems(2) ne] q have "distinct (map fst q)" by simp
    moreover from get_length [OF ne] q Cons.prems(7) have "length q \<le> length outcomes" by simp
    ultimately have "\<exists>st \<in> set (serve outcomes ?s'). in_flight st = Some task"
      using Cons.prems(3,4) d(2)
      by (intro Cons.IH) (simp_all add: run_result_fields)
    then show ?thesis by (auto simp: outcome)
  qed
qed

lemma retry_accepted_and_dispatched:
  assumes "distinct (priorities (evs @ [Add isfile priority task_type fn as cb' kw]))"
    and "list_all (sees_file p) evs" and "list_all (\<lambda>e. \<not> is_stop e) evs"
    and "in_flight (after evs) = Some task" and "str_arg0 (args task) = Some p"
    and "str_arg0 as = Some p" and "isfile p"
    and "length (task_queue (after evs)) < length outcomes"
  shows "fst (add_task isfile priority task_type fn as cb' kw
                (run_result (Inl e) cb (after evs))) = None"
    and "\<exists>st \<in> set (serve outcomes (snd (add_task isfile priority task_type fn as cb' kw
                                             (run_result (Inl e) cb (after evs))))).
           in_flight st =
             Some \<lparr>type = task_type, func = fn, args = as, kwargs = kw, callback = cb'\<rparr>"
proof -
  let ?s = "after evs"
  let ?s' = "run_result (Inl e) cb ?s"
  let ?new = "\<lparr>type = task_type, func = fn, args = as, kwargs = kw, callback = cb'\<rparr>"
  let ?r = "add_task isfile priority task_type fn as cb' kw ?s'"
  note h = failure_handled [OF assms(4), of e cb]
  from assms(1) have d: "distinct (priorities evs)" and fresh: "priority \<notin> set (priorities evs)"
    by (simp_all add: priorities_def)
  from orderly_after [OF d]
  have o: "is_heap (task_queue ?s)" "distinct (map fst (task_queue ?s))"
    "fst ` set (task_queue ?s) \<subseteq> set (priorities evs)"
    by (simp_all add: orderly_def)
  from open_after [OF assms(3)] have op: "running ?s" "\<not> executor_shutdown ?s" by simp_all
  from inv_after [OF assms(2)] assms(4,5) have "queued p (task_queue ?s) = 0"
    by (simp add: dedup_inv_def unresolved_queued about_def)
  then have "\<not> is_processing_file ?s p" by (simp add: is_processing_file_queued)
  with h(4) have np: "\<not> is_processing_file ?s' p" by (simp add: is_processing_file_def)
  from h(6) assms(5) have "p \<notin> processed_files ?s'" by simp
  with np assms(6,7)
  have r: "?r = enqueue priority ?new (?s'\<lparr>processed_files := insert p (processed_files ?s')\<rparr>)"
    by (simp add: add_task_tracked)
  from o(3) fresh have "distinct (map fst (task_queue ?s @ [(priority, ?new)]))"
    using o(2) by auto
  from put_heap [OF o(1) this]
  have p: "fst (put (task_queue ?s) (priority, ?new)) = None"
    "is_heap (snd (put (task_queue ?s) (priority, ?new)))" by simp_all
  from p(1) r h(4) show "fst ?r = None"
    by (simp add: enqueue_def split: prod.splits option.splits)
  from r h(4) have q: "task_queue (snd ?r) = snd (put (task_queue ?s) (priority, ?new))"
    by (simp add: enqueue_fields)
  from orderly_put(2) [OF o(1,2,3) fresh]
  have "distinct (map fst (task_queue (snd ?r)))" by (simp add: q)
  moreover from p(2) have "is_heap (task_queue (snd ?r))" by (simp add: q)
  moreover have "(priority, ?new) \<in> set (task_queue (snd ?r))" by (simp add: q put_member)
  moreover have "mset (task_queue (snd ?r)) = add_mset (priority, ?new) (mset (task_queue ?s))"
    by (simp add: q put_def heappush_mset)
  then have "length (task_queue (snd ?r)) = Suc (length (task_queue ?s))"
    by (metis size_mset size_add_mset)
  with assms(8) have "length (task_queue (snd ?r)) \<le> length outcomes" by simp
  moreover from op h(2,3,5) have "running (snd ?r)" "\<not> executor_shutdown (snd ?r)"
    "in_flight (snd ?r) = None" by simp_all
  ultimately show "\<exists>st \<in> set (serve outcomes (snd ?r)). in_flight st = Some ?new"
    by (intro queued_task_dispatched) simp_all
qed

section \<open>Acquiring an automation handle\<close>

text \<open>
  The loop itself, for a manager that has the lock. If the attempts before attempt \<open>k\<close>
  fail and attempt \<open>k\<close> connects, the object is handed out after \<open>k + 1\<close> calls of
  \<open>DispatchEx\<close> and the sleeps \<open>retry_delay * 2 ^ j\<close> for each failed attempt \<open>j\<close>. If every
  attempt fails, the error of the last one is raised, after \<open>max_retries\<close> calls and a
  sleep after each attempt but the last.
\<close>

lemma attempts_succeeds:
  assumes "connect k = Inr obj" and "i \<le> k" and "k < max_retries rm"
    and "\<forall>j. i \<le> j \<and> j < k \<longrightarrow> (\<exists>e. connect j = Inl e)"
  shows "\<exists>rm' w'. attempts connect com_class now [i..<max_retries rm] (rm, w) = (Inr obj, rm', w') \<and>
           slept w' = slept w @ map (\<lambda>j. retry_delay rm * 2 ^ j) [i..<k] \<and>
           dispatch_calls w' = dispatch_calls w + (k - i + 1)"
  using assms
proof (induction "k - i" arbitrary: i w)
  case 0
  then have "i = k" by simp
  with 0 have "[i..<max_retries rm] = k # [Suc k..<max_retries rm]"
    by (simp add: upt_conv_Cons)
  with 0 \<open>i = k\<close> show ?case by simp
next
  case (Suc n)
  then have lt: "i < k" by simp
  with Suc.prems have l: "[i..<max_retries rm] = i # [Suc i..<max_retries rm]"
    by (simp add: upt_conv_Cons)
  from Suc.prems lt obtain e where e: "connect i = Inl e" by auto
  let ?w1 = "w\<lparr>dispatch_calls := dispatch_calls w + 1,
                warnings := warnings w @ [Attempt_failed_for_COM_class (i + 1) com_class (str_of e)],
                slept := slept w @ [retry_delay rm * 2 ^ i]\<rparr>"
  from Suc.hyps(2) have n: "n = k - Suc i" by simp
  from Suc.prems lt have "\<forall>j. Suc i \<le> j \<and> j < k \<longrightarrow> (\<exists>e. connect j = Inl e)" by auto
  with Suc.hyps(1) [OF n Suc.prems(1) _ Suc.prems(3), of ?w1] lt
  obtain rm' w' where r: "attempts connect com_class now [Suc i..<max_retries rm] (rm, ?w1) = (Inr obj, rm', w')"
    "slept w' = slept ?w1 @ map (\<lambda>j. retry_delay rm * 2 ^ j) [Suc i..<k]"
    "dispatch_calls w' = dispatch_calls ?w1 + (k - Suc i + 1)"
    by auto
  from lt Suc.prems(3) have ne: "i + 1 \<noteq> max_retries rm" by simp
  from r e ne l lt show ?case
    by (simp add: upt_conv_Cons)
qed

lemma attempts_exhausted:
  assumes "i < max_retries rm"
    and "\<forall>j. i \<le> j \<and> j < max_retries rm \<longrightarrow> (\<exists>e. connect j = Inl e)"
  shows "\<exists>w'. attempts connect com_class now [i..<max_retries rm] (rm, w) =
                 (connect (max_retries rm - 1), rm, w') \<and>
           slept w' = slept w @ map (\<lambda>j. retry_delay rm * 2 ^ j) [i..<max_retries rm - 1] \<and>
           dispatch_calls w' = dispatch_calls w + (max_retries rm - i)"
  using assms
proof (induction "max_retries rm - i" arbitrary: i w)
  case 0
  then show ?case by simp
next
  case (Suc n)
  then have l: "[i..<max_retries rm] = i # [Suc i..<max_retries rm]"
    by (simp add: upt_conv_Cons)
  from Suc.prems obtain e where e: "connect i = Inl e" by auto
  show ?case
  proof (cases "i + 1 = max_retries rm")
    case True
    then have "max_retries rm - 1 = i" by simp
    with True e l show ?thesis by simp
  next
    case False
    with Suc.prems have lt: "Suc i < max_retries rm" by simp
    let ?w1 = "w\<lparr>dispatch_calls := dispatch_calls w + 1,
                warnings := warnings w @ [Attempt_failed_for_COM_class (i + 1) com_class (str_of e)],
                slept := slept w @ [retry_delay rm * 2 ^ i]\<rparr>"
    from Suc.hyps(2) have n: "n = max_retries rm - Suc i" by simp
    from Suc.prems have "\<forall>j. Suc i \<le> j \<and> j < max_retries rm \<longrightarrow> (\<exists>e. connect j = Inl e)" by auto
    with Suc.hyps(1) [OF n lt, of ?w1]
    obtain w' where r: "attempts connect com_class now [Suc i..<max_retries rm] (rm, ?w1) =
                 (connect (max_retries rm - 1), rm, w')"
      "slept w' = slept ?w1 @ map (\<lambda>j. retry_delay rm * 2 ^ j) [Suc i..<max_retries rm - 1]"
      "dispatch_calls w' = dispatch_calls ?w1 + (max_retries rm - Suc i)"
      by auto
    from lt have "[i..<max_retries rm - 1] = i # [Suc i..<max_retries rm - 1]"
      by (simp add: upt_conv_Cons)
    with r e False l lt show ?thesis by simp
  qed
qed

text \<open>
  Claim C4 (retry-then-fail acquisition), at a manager as \<open>__init__\<close> leaves it: whatever
  \<open>DispatchEx\<close> would do, entering \<open>manage_com_object\<close> raises \<open>AttributeError\<close> at
  \<open>with self._temp_files_lock\<close>, before the first attempt: no call of \<open>DispatchEx\<close>, no
  sleep, manager and world unchanged. So it does even when the first attempt would
  connect.
\<close>

theorem acquire_raises_attribute_error:
  "manage_com_object connect com_class now (ResourceManager_init, w) =
     (Inl (AttributeError ''ResourceManager object has no attribute _temp_files_lock''),
      ResourceManager_init, w) \<and>
   manage_com_object (\<lambda>attempt. Inr 7) ''Word.Application'' 0 (ResourceManager_init, empty_world) =
     (Inl (AttributeError ''ResourceManager object has no attribute _temp_files_lock''),
      ResourceManager_init, empty_world)"
  by (simp add: manage_com_object_def ResourceManager_init_def)

section \<open>Temporary files and the sweep\<close>

lemma fst_cleanup_file [simp]: "fst (cleanup_file p x) = None"
  by (cases x) (simp add: cleanup_file_def split: prod.splits option.splits)

lemma fst_cleanup_directory [simp]: "fst (cleanup_directory p x) = None"
  by (cases x) (simp add: cleanup_directory_def)

lemma cleanup_file_untracks: "p \<notin> set (temp_files (fst (snd (cleanup_file p x))))"
  by (cases x) (simp add: cleanup_file_def set_discard_def split: prod.splits option.splits)

lemma cleanup_file_untracked:
  "p \<notin> set (temp_files (fst x)) \<Longrightarrow> cleanup_file p x = (None, x)"
  by (cases x) (simp add: cleanup_file_def)

lemma cleanup_directory_untracks:
  "p \<notin> set (temp_directories (fst (snd (cleanup_directory p x))))"
  by (cases x) (simp add: cleanup_directory_def set_discard_def)

lemma cleanup_directory_untracked:
  "p \<notin> set (temp_directories (fst x)) \<Longrightarrow> cleanup_directory p x = (None, x)"
  by (cases x) (simp add: cleanup_directory_def)

lemma shrinks_refl: "shrinks w w"
  by (simp add: shrinks_def)

lemma shrinks_trans:
  assumes "shrinks w w'" and "shrinks w' w''"
  shows "shrinks w w''"
proof -
  from assms(1) obtain r1 where r1: "removed w' = removed w @ r1" "distinct r1"
    "\<forall>p \<in> set r1. mtime w p \<noteq> None \<and> mtime w' p = None"
    and m1: "\<forall>p. mtime w' p = None \<or> mtime w' p = mtime w p"
    and u1: "undeletable w' = undeletable w"
    by (auto simp: shrinks_def)
  from assms(2) obtain r2 where r2: "removed w'' = removed w' @ r2" "distinct r2"
    "\<forall>p \<in> set r2. mtime w' p \<noteq> None \<and> mtime w'' p = None"
    and m2: "\<forall>p. mtime w'' p = None \<or> mtime w'' p = mtime w' p"
    and u2: "undeletable w'' = undeletable w'"
    by (auto simp: shrinks_def)
  have "removed w'' = removed w @ (r1 @ r2)" using r1(1) r2(1) by simp
  moreover have "distinct (r1 @ r2)" using r1(2,3) r2(2,3) by auto
  moreover have "\<forall>p \<in> set (r1 @ r2). mtime w p \<noteq> None \<and> mtime w'' p = None"
  proof
    fix p assume "p \<in> set (r1 @ r2)"
    then consider "p \<in> set r1" | "p \<in> set r2" by auto
    then show "mtime w p \<noteq> None \<and> mtime w'' p = None"
    proof cases
      case 1
      with r1(3) have "mtime w p \<noteq> None" "mtime w' p = None" by simp_all
      with m2 [rule_format, of p] show ?thesis by simp
    next
      case 2
      with r2(3) have "mtime w' p \<noteq> None" "mtime w'' p = None" by simp_all
      with m1 [rule_format, of p] show ?thesis by simp
    qed
  qed
  moreover have "\<forall>p. mtime w'' p = None \<or> mtime w'' p = mtime w p"
  proof
    fix p
    from m1 [rule_format, of p] m2 [rule_format, of p]
    show "mtime w'' p = None \<or> mtime w'' p = mtime w p" by auto
  qed
  moreover have "undeletable w'' = undeletable w" using u1 u2 by simp
  ultimately show ?thesis unfolding shrinks_def by (intro conjI exI [of _ "r1 @ r2"])
qed

lemma shrinks_removal:
  assumes "mtime w p \<noteq> None"
  shows "shrinks w (w\<lparr>mtime := (mtime w)(p := None), removed := removed w @ [p]\<rparr>)"
  unfolding shrinks_def using assms by (intro conjI exI [of _ "[p]"]) auto

lemma shrinks_warning: "shrinks w w' \<Longrightarrow> shrinks w (w'\<lparr>warnings := ws\<rparr>)"
  by (simp add: shrinks_def)

lemma shrinks_os_remove: "shrinks w (snd (os_remove p w))"
  by (simp add: os_remove_def shrinks_refl shrinks_removal path_exists_def)

lemma shrinks_rmtree: "shrinks w (rmtree_ignore_errors p w)"
  by (simp add: rmtree_ignore_errors_def shrinks_refl shrinks_removal path_exists_def)

lemma settles_refl: "settles x x"
  by (simp add: settles_def shrinks_refl)

lemma settles_trans:
  assumes "settles x x'" and "settles x' x''"
  shows "settles x x''"
proof -
  from assms have "shrinks (snd x) (snd x')" "shrinks (snd x') (snd x'')"
    by (simp_all add: settles_def)
  then have "shrinks (snd x) (snd x'')" by (rule shrinks_trans)
  moreover from assms have "set (temp_files (fst x'')) \<subseteq> set (temp_files (fst x))"
    "set (temp_directories (fst x'')) \<subseteq> set (temp_directories (fst x))"
    by (auto simp: settles_def)
  moreover from assms have "max_resource_age (fst x'') = max_resource_age (fst x)"
    "cleanup_scheduled (fst x'') = cleanup_scheduled (fst x)"
    "com_objects (fst x'') = com_objects (fst x)"
    by (simp_all add: settles_def)
  ultimately show ?thesis by (simp add: settles_def)
qed

lemma settles_cleanup_file: "settles x (snd (cleanup_file p x))"
proof (cases x)
  case (Pair rm w)
  show ?thesis
  proof (cases "p \<in> set (temp_files rm)")
    case False
    with Pair show ?thesis by (simp add: cleanup_file_untracked settles_refl)
  next
    case True
    obtain e w1 where o: "(if path_exists w p then os_remove p w else (None, w)) = (e, w1)"
      by (cases "if path_exists w p then os_remove p w else (None, w)")
    then have "shrinks w w1"
      using shrinks_os_remove [of w p] shrinks_refl [of w] by (auto split: if_splits)
    with Pair True o show ?thesis
      by (cases e) (auto simp: cleanup_file_def settles_def set_discard_def shrinks_warning)
  qed
qed

lemma settles_cleanup_directory: "settles x (snd (cleanup_directory p x))"
  by (cases x) (auto simp: cleanup_directory_def settles_def set_discard_def shrinks_rmtree
      shrinks_refl)

lemma stale_settles:
  assumes "settles x x'" and "stale t (fst x') (snd x') p"
  shows "stale t (fst x) (snd x) p"
proof -
  from assms(2) obtain m where m: "mtime (snd x') p = Some m" "t - m > max_resource_age (fst x')"
    by (auto simp: stale_def split: option.splits)
  from assms(1) have "mtime (snd x') p = None \<or> mtime (snd x') p = mtime (snd x) p"
    and "max_resource_age (fst x') = max_resource_age (fst x)"
    by (simp_all add: settles_def shrinks_def)
  with m have "mtime (snd x) p = Some m" "t - m > max_resource_age (fst x)" by auto
  then show ?thesis by (simp add: stale_def)
qed

lemma sweep_files_settles:
  "fst (sweep_files t ps x) = None \<and> settles x (snd (sweep_files t ps x)) \<and>
   (\<forall>p \<in> set ps. p \<in> set (temp_files (fst (snd (sweep_files t ps x)))) \<longrightarrow>
      \<not> stale t (fst (snd (sweep_files t ps x))) (snd (snd (sweep_files t ps x))) p)"
proof (induction ps arbitrary: x)
  case Nil
  show ?case by (simp add: settles_refl)
next
  case (Cons q ps)
  show ?case
  proof (cases "stale t (fst x) (snd x) q")
    case False
    then have s: "sweep_files t (q # ps) x = sweep_files t ps x" by simp
    from Cons [of x] False stale_settles [of x "snd (sweep_files t ps x)" t q]
    show ?thesis unfolding s by auto
  next
    case True
    let ?x1 = "snd (cleanup_file q x)"
    from True have s: "sweep_files t (q # ps) x = sweep_files t ps ?x1"
      using fst_cleanup_file [of q x] by (cases "cleanup_file q x") simp
    let ?x2 = "snd (sweep_files t ps ?x1)"
    from Cons [of ?x1] have ih: "fst (sweep_files t ps ?x1) = None" "settles ?x1 ?x2"
      "\<forall>p \<in> set ps. p \<in> set (temp_files (fst ?x2)) \<longrightarrow> \<not> stale t (fst ?x2) (snd ?x2) p"
      by simp_all
    from ih(2) cleanup_file_untracks [of q x] have "q \<notin> set (temp_files (fst ?x2))"
      by (auto simp: settles_def)
    moreover from settles_cleanup_file [of x q] ih(2) have "settles x ?x2"
      by (rule settles_trans)
    ultimately show ?thesis unfolding s using ih(1,3) by auto
  qed
qed

lemma sweep_directories_settles:
  "fst (sweep_directories t ps x) = None \<and> settles x (snd (sweep_directories t ps x)) \<and>
   (\<forall>p \<in> set ps. p \<in> set (temp_directories (fst (snd (sweep_directories t ps x)))) \<longrightarrow>
      \<not> stale t (fst (snd (sweep_directories t ps x))) (snd (snd (sweep_directories t ps x))) p)"
proof (induction ps arbitrary: x)
  case Nil
  show ?case by (simp add: settles_refl)
next
  case (Cons q ps)
  show ?case
  proof (cases "stale t (fst x) (snd x) q")
    case False
    then have s: "sweep_directories t (q # ps) x = sweep_directories t ps x" by simp
    from Cons [of x] False stale_settles [of x "snd (sweep_directories t ps x)" t q]
    show ?thesis unfolding s by auto
  next
    case True
    let ?x1 = "snd (cleanup_directory q x)"
    from True have s: "sweep_directories t (q # ps) x = sweep_directories t ps ?x1"
      using fst_cleanup_directory [of q x] by (cases "cleanup_directory q x") simp
    let ?x2 = "snd (sweep_directories t ps ?x1)"
    from Cons [of ?x1] have ih: "fst (sweep_directories t ps ?x1) = None" "settles ?x1 ?x2"
      "\<forall>p \<in> set ps. p \<in> set (temp_directories (fst ?x2)) \<longrightarrow> \<not> stale t (fst ?x2) (snd ?x2) p"
      by simp_all
    from ih(2) cleanup_directory_untracks [of q x] have "q \<notin> set (temp_directories (fst ?x2))"
      by (auto simp: settles_def)
    moreover from settles_cleanup_directory [of x q] ih(2) have "settles x ?x2"
      by (rule settles_trans)
    ultimately show ?thesis unfolding s using ih(1,3) by auto
  qed
qed

lemma sweep_files_noop:
  "\<forall>p \<in> set ps. \<not> stale t (fst x) (snd x) p \<Longrightarrow> sweep_files t ps x = (None, x)"
  by (induction ps) simp_all

lemma sweep_directories_noop:
  "\<forall>p \<in> set ps. \<not> stale t (fst x) (snd x) p \<Longrightarrow> sweep_directories t ps x = (None, x)"
  by (induction ps) simp_all

text \<open>
  What one sweep leaves: no tracked path is stale any more, and the automation handles
  are as they were.
\<close>

lemma cleanup_all_settles:
  "fst (cleanup_all t x) = None \<and>
   shrinks (snd x) (snd (snd (cleanup_all t x))) \<and>
   max_resource_age (fst (snd (cleanup_all t x))) = max_resource_age (fst x) \<and>
   cleanup_scheduled (fst (snd (cleanup_all t x))) = False \<and>
   com_objects (fst (snd (cleanup_all t x))) = com_objects (fst x) \<and>
   (\<forall>p \<in> set (temp_directories (fst (snd (cleanup_all t x)))) \<union>
           set (temp_files (fst (snd (cleanup_all t x)))).
      \<not> stale t (fst (snd (cleanup_all t x))) (snd (snd (cleanup_all t x))) p)"
proof -
  let ?x1 = "snd (sweep_directories t (temp_directories (fst x)) x)"
  let ?x2 = "snd (sweep_files t (temp_files (fst ?x1)) ?x1)"
  let ?x3 = "((fst ?x2)\<lparr>cleanup_scheduled := False\<rparr>, snd ?x2)"
  from sweep_directories_settles [of t "temp_directories (fst x)" x]
  have d: "fst (sweep_directories t (temp_directories (fst x)) x) = None" "settles x ?x1"
    "\<forall>p \<in> set (temp_directories (fst x)). p \<in> set (temp_directories (fst ?x1)) \<longrightarrow>
       \<not> stale t (fst ?x1) (snd ?x1) p"
    by simp_all
  from sweep_files_settles [of t "temp_files (fst ?x1)" ?x1]
  have f: "fst (sweep_files t (temp_files (fst ?x1)) ?x1) = None" "settles ?x1 ?x2"
    "\<forall>p \<in> set (temp_files (fst ?x1)). p \<in> set (temp_files (fst ?x2)) \<longrightarrow>
       \<not> stale t (fst ?x2) (snd ?x2) p"
    by simp_all
  have c: "cleanup_all t x = (None, ?x3)"
    using d(1) f(1)
    by (cases "sweep_directories t (temp_directories (fst x)) x";
        cases "sweep_files t (temp_files (fst ?x1)) ?x1")
       (auto simp: cleanup_all_def)
  have st: "stale t (fst ?x3) (snd ?x3) p = stale t (fst ?x2) (snd ?x2) p" for p
    by (simp add: stale_def split: option.splits)
  have files: "\<not> stale t (fst ?x2) (snd ?x2) p" if "p \<in> set (temp_files (fst ?x2))" for p
  proof -
    from that f(2) have "p \<in> set (temp_files (fst ?x1))" by (auto simp: settles_def)
    with f(3) that show ?thesis by simp
  qed
  have dirs: "\<not> stale t (fst ?x2) (snd ?x2) p" if "p \<in> set (temp_directories (fst ?x2))" for p
  proof -
    from that f(2) have 1: "p \<in> set (temp_directories (fst ?x1))" by (auto simp: settles_def)
    with d(2) have "p \<in> set (temp_directories (fst x))" by (auto simp: settles_def)
    with d(3) 1 have "\<not> stale t (fst ?x1) (snd ?x1) p" by simp
    with stale_settles [OF f(2), of t p] show ?thesis by blast
  qed
  from d(2) f(2) have "settles x ?x2" by (rule settles_trans)
  then have "shrinks (snd x) (snd ?x3)" "max_resource_age (fst ?x3) = max_resource_age (fst x)"
    "com_objects (fst ?x3) = com_objects (fst x)"
    by (simp_all add: settles_def)
  with files dirs st show ?thesis unfolding c by auto
qed

lemma cleanup_all_settled:
  assumes "cleanup_scheduled (fst x) = False"
    and "\<forall>p \<in> set (temp_directories (fst x)) \<union> set (temp_files (fst x)).
           \<not> stale t (fst x) (snd x) p"
  shows "cleanup_all t x = (None, x)"
proof -
  from assms(2) have "sweep_directories t (temp_directories (fst x)) x = (None, x)"
    by (intro sweep_directories_noop) simp
  moreover from assms(2) have "sweep_files t (temp_files (fst x)) x = (None, x)"
    by (intro sweep_files_noop) simp
  moreover have "(fst x)\<lparr>cleanup_scheduled := False\<rparr> = fst x"
    using assms(1) by (cases "fst x") simp
  ultimately show ?thesis by (cases x) (simp add: cleanup_all_def)
qed

text \<open>
  Claim C7 (scoped temp-file reclamation), as amended. Entering \<open>temp_file\<close> registers
  the file, which then exists. Whatever the body does, and whether it returns or raises
  (\<open>r\<close> is its outcome and is the outcome of the whole \<open>with\<close>), the path is not
  registered when the scope has been left. If the path is still registered when the body
  ends and its removal does not fail, the file is then gone from disk. If it is still
  registered and on disk and \<open>os.remove\<close> fails, the file stays on disk and the failure
  is logged as a warning.
\<close>

theorem scoped_temp_file_reclaimed:
  assumes "body name (temp_file_enter name now x) = (r, rm', w')"
  shows "name \<in> set (temp_files (fst (temp_file_enter name now x))) \<and>
         path_exists (snd (temp_file_enter name now x)) name \<and>
         fst (with_temp_file name now body x) = r \<and>
         name \<notin> set (temp_files (fst (snd (with_temp_file name now body x)))) \<and>
         (name \<in> set (temp_files rm') \<and> \<not> undeletable w' name \<longrightarrow>
            \<not> path_exists (snd (snd (with_temp_file name now body x))) name) \<and>
         (name \<in> set (temp_files rm') \<and> path_exists w' name \<and> undeletable w' name \<longrightarrow>
            path_exists (snd (snd (with_temp_file name now body x))) name \<and>
            warnings (snd (snd (with_temp_file name now body x))) =
              warnings w' @ [Failed_to_remove_temporary_file name ''Permission denied''])"
proof -
  have entry: "name \<in> set (temp_files (fst (temp_file_enter name now x)))"
    "path_exists (snd (temp_file_enter name now x)) name"
    by (cases x; simp add: temp_file_enter_def set_add_def path_exists_def)+
  have w: "with_temp_file name now body x =
             (r, snd (cleanup_file name (rm', w')))"
    using assms fst_cleanup_file [of name "(rm', w')"]
    by (cases "cleanup_file name (rm', w')") (simp add: with_temp_file_def)
  have exit: "name \<notin> set (temp_files (fst (snd (with_temp_file name now body x))))"
    by (simp add: w cleanup_file_untracks)
  have gone: "\<not> path_exists (snd (snd (with_temp_file name now body x))) name"
    if "name \<in> set (temp_files rm')" "\<not> undeletable w' name"
    using that by (simp add: w cleanup_file_def os_remove_def path_exists_def)
  have left: "path_exists (snd (snd (with_temp_file name now body x))) name \<and>
            warnings (snd (snd (with_temp_file name now body x))) =
              warnings w' @ [Failed_to_remove_temporary_file name ''Permission denied'']"
    if "name \<in> set (temp_files rm')" "path_exists w' name" "undeletable w' name"
    using that by (simp add: w cleanup_file_def os_remove_def path_exists_def)
  from entry w exit gone left show ?thesis by simp
qed

theorem scoped_temp_file_reclaimed_witness:
  "fst (with_temp_file ''/tmp/tmp1'' 1000 body_returns (ResourceManager_init, empty_world)) = Inr 0 \<and>
   \<not> path_exists (snd (snd (with_temp_file ''/tmp/tmp1'' 1000 body_returns
                              (ResourceManager_init, empty_world)))) ''/tmp/tmp1'' \<and>
   ''/tmp/tmp1'' \<notin> set (temp_files (fst (snd (with_temp_file ''/tmp/tmp1'' 1000 body_returns
                              (ResourceManager_init, empty_world))))) \<and>
   fst (with_temp_file ''/tmp/tmp1'' 1000 body_raises (ResourceManager_init, empty_world)) =
     Inl (Exception ''conversion failed'') \<and>
   \<not> path_exists (snd (snd (with_temp_file ''/tmp/tmp1'' 1000 body_raises
                              (ResourceManager_init, empty_world)))) ''/tmp/tmp1'' \<and>
   ''/tmp/tmp1'' \<notin> set (temp_files (fst (snd (with_temp_file ''/tmp/tmp1'' 1000 body_raises
                              (ResourceManager_init, empty_world)))))"
proof -
  let ?x = "(ResourceManager_init, empty_world)"
  let ?rm = "ResourceManager_init\<lparr>temp_files := [''/tmp/tmp1'']\<rparr>"
  let ?w = "empty_world\<lparr>mtime := (mtime empty_world)(''/tmp/tmp1'' \<mapsto> 1000)\<rparr>"
  have e: "temp_file_enter ''/tmp/tmp1'' 1000 ?x = (?rm, ?w)"
    by (simp add: temp_file_enter_def set_add_def ResourceManager_init_def)
  have h1: "body_returns ''/tmp/tmp1'' (temp_file_enter ''/tmp/tmp1'' 1000 ?x) = (Inr 0, ?rm, ?w)"
    by (simp add: body_returns_def e)
  have h2: "body_raises ''/tmp/tmp1'' (temp_file_enter ''/tmp/tmp1'' 1000 ?x) =
              (Inl (Exception ''conversion failed''), ?rm, ?w)"
    by (simp add: body_raises_def e)
  have more: "''/tmp/tmp1'' \<in> set (temp_files ?rm)" "\<not> undeletable ?w ''/tmp/tmp1''"
    by (simp_all add: empty_world_def)
  from scoped_temp_file_reclaimed [where body = body_returns and name = "''/tmp/tmp1''"
        and now = 1000 and x = ?x, OF h1]
    scoped_temp_file_reclaimed [where body = body_raises and name = "''/tmp/tmp1''"
        and now = 1000 and x = ?x, OF h2] more
  show ?thesis by simp
qed

text \<open>
  Claim C7 as stated fails: a body that leaves the file open, so that \<open>os.remove\<close>
  raises, returns normally, and after the scope the file is still on disk; only the
  warning tells.
\<close>

theorem scoped_temp_file_left_on_disk:
  "path_exists (snd (snd (with_temp_file ''/tmp/tmp1'' 1000 body_keeps_open
                            (ResourceManager_init, empty_world)))) ''/tmp/tmp1'' \<and>
   fst (with_temp_file ''/tmp/tmp1'' 1000 body_keeps_open (ResourceManager_init, empty_world)) =
     Inr 0 \<and>
   warnings (snd (snd (with_temp_file ''/tmp/tmp1'' 1000 body_keeps_open
                            (ResourceManager_init, empty_world)))) =
     [Failed_to_remove_temporary_file ''/tmp/tmp1'' ''Permission denied'']"
  by (simp add: with_temp_file_def temp_file_enter_def body_keeps_open_def cleanup_file_def
      os_remove_def path_exists_def set_add_def set_discard_def ResourceManager_init_def
      empty_world_def)

text \<open>
  Claim C8 (release of every tracked record), at a manager with one temporary file
  registered ten seconds before the call: \<open>cleanup_all\<close> changes nothing. The file is not
  older than \<open>_max_resource_age\<close>, so it stays registered and on disk.
\<close>

theorem cleanup_all_keeps_fresh:
  "cleanup_all 1010 (temp_file_enter ''/tmp/tmp1'' 1000 (ResourceManager_init, empty_world)) =
     (None, temp_file_enter ''/tmp/tmp1'' 1000 (ResourceManager_init, empty_world)) \<and>
   ''/tmp/tmp1'' \<in> set (temp_files (fst (snd (cleanup_all 1010
       (temp_file_enter ''/tmp/tmp1'' 1000 (ResourceManager_init, empty_world)))))) \<and>
   path_exists (snd (snd (cleanup_all 1010
       (temp_file_enter ''/tmp/tmp1'' 1000 (ResourceManager_init, empty_world))))) ''/tmp/tmp1''"
  by (simp add: cleanup_all_def temp_file_enter_def set_add_def ResourceManager_init_def
      empty_world_def stale_def path_exists_def)

text \<open>
  Claim C9 (double release and sweep idempotence). \<open>cleanup_file\<close> and
  \<open>cleanup_directory\<close> raise nothing, and a second call on the same path raises nothing
  and changes nothing. \<open>cleanup_all\<close> raises nothing, neither does a second sweep right
  after it (at any reading \<open>t'\<close> of the clock); a second sweep at the same reading
  changes nothing; and over the two sweeps no path is removed twice: the removals of the
  first sweep followed by those of the second have no repetition.
\<close>

theorem release_twice_sweep_twice:
  "fst (cleanup_file p x) = None \<and>
   cleanup_file p (snd (cleanup_file p x)) = (None, snd (cleanup_file p x)) \<and>
   fst (cleanup_directory p x) = None \<and>
   cleanup_directory p (snd (cleanup_directory p x)) = (None, snd (cleanup_directory p x)) \<and>
   fst (cleanup_all t x) = None \<and>
   fst (cleanup_all t' (snd (cleanup_all t x))) = None \<and>
   cleanup_all t (snd (cleanup_all t x)) = (None, snd (cleanup_all t x)) \<and>
   (\<exists>r1 r2. removed (snd (snd (cleanup_all t x))) = removed (snd x) @ r1 \<and>
            removed (snd (snd (cleanup_all t' (snd (cleanup_all t x))))) =
              removed (snd (snd (cleanup_all t x))) @ r2 \<and>
            distinct (r1 @ r2))"
proof -
  let ?x1 = "snd (cleanup_all t x)"
  let ?x2 = "snd (cleanup_all t' ?x1)"
  have files: "cleanup_file p (snd (cleanup_file p x)) = (None, snd (cleanup_file p x))"
    by (simp add: cleanup_file_untracked cleanup_file_untracks)
  have dirs: "cleanup_directory p (snd (cleanup_directory p x)) =
                (None, snd (cleanup_directory p x))"
    by (simp add: cleanup_directory_untracked cleanup_directory_untracks)
  from cleanup_all_settles [of t x]
  have one: "fst (cleanup_all t x) = None" "shrinks (snd x) (snd ?x1)"
    "cleanup_scheduled (fst ?x1) = False"
    "\<forall>p \<in> set (temp_directories (fst ?x1)) \<union> set (temp_files (fst ?x1)).
       \<not> stale t (fst ?x1) (snd ?x1) p"
    by simp_all
  from cleanup_all_settles [of t' ?x1]
  have two: "fst (cleanup_all t' ?x1) = None" "shrinks (snd ?x1) (snd ?x2)"
    by simp_all
  from one(3,4) have again: "cleanup_all t ?x1 = (None, ?x1)"
    by (rule cleanup_all_settled)
  from one(2) obtain r1 where r1: "removed (snd ?x1) = removed (snd x) @ r1" "distinct r1"
    "\<forall>p \<in> set r1. mtime (snd ?x1) p = None"
    by (auto simp: shrinks_def)
  from two(2) obtain r2 where r2: "removed (snd ?x2) = removed (snd ?x1) @ r2" "distinct r2"
    "\<forall>p \<in> set r2. mtime (snd ?x1) p \<noteq> None"
    by (auto simp: shrinks_def)
  from r1(2,3) r2(2,3) have "distinct (r1 @ r2)" by auto
  with r1(1) r2(1) have "\<exists>r1 r2. removed (snd ?x1) = removed (snd x) @ r1 \<and>
      removed (snd ?x2) = removed (snd ?x1) @ r2 \<and> distinct (r1 @ r2)"
    by blast
  with files dirs one(1) two(1) again show ?thesis by simp
qed

end
